theory Spec2Isabelle
  imports Main "HOL-Library.Word" "HOL-Library.Sublist"
begin

unbundle bit_operations_syntax

section \<open>Go values shared by the packages\<close>

text \<open>
  Go strings are byte sequences: \<open>string\<close> (a list of 8-bit characters) is the model.
  \<open>uint64\<close> is a 64-bit word read with \<open>unat\<close>; Go's \<open>int\<close> is modelled for the
  64-bit targets the agent is built for, as a 64-bit word read with \<open>sint\<close>.
\<close>

type_synonym uint64 = "64 word"
type_synonym goint = "64 word"

datatype NumErr = ErrSyntax | ErrRange

text \<open>
  The error values that the modelled functions return. \<open>NumError f s k\<close> is
  \<open>*strconv.NumError\<close> (function name, input, kind); \<open>ExternalError msg\<close> is an error
  handed in by a collaborator outside the modelled code (the process runner, the scanner,
  the context), known by the text of its \<open>Error()\<close>.
\<close>

datatype error =
    NumError string string NumErr
  | UnknownStateName string
  | ErrNotRoot
  | ExternalError string

text \<open>
  The text of an error. The text of a \<open>NumError\<close> quotes its input with
  \<open>strconv.Quote\<close>, which is not modelled: it is left unspecified, and nothing below reads it.
\<close>

fun Error :: "error \<Rightarrow> string" where
  "Error (UnknownStateName n) = ''unknown state name: '' @ n"
| "Error ErrNotRoot = ''must be run as sudo/root''"
| "Error (ExternalError msg) = msg"

text \<open>The ASCII digits \<open>'0'\<close> to \<open>'9'\<close> (the class \<^verbatim>\<open>\d\<close> of Go's regular expressions).\<close>

definition is_digit :: "char \<Rightarrow> bool" where
  "is_digit c = (48 \<le> (of_char c :: nat) \<and> (of_char c :: nat) \<le> 57)"

section \<open>The standard-library calls the code relies on\<close>

subsection \<open>fmt.Sprintf with the verb %d\<close>

definition digit_char :: "nat \<Rightarrow> char" where
  "digit_char d = char_of (48 + d)"

fun decimal :: "nat \<Rightarrow> string" where
  "decimal n = (if n < 10 then [digit_char n] else decimal (n div 10) @ [digit_char (n mod 10)])"

declare decimal.simps [simp del]

text \<open>\<open>%d\<close> of an unsigned 64-bit value: its decimal digits.\<close>

definition Sprintf_d_uint64 :: "uint64 \<Rightarrow> string" where
  "Sprintf_d_uint64 u = decimal (unat u)"

text \<open>
  \<open>%d\<close> of a signed value: a minus sign when it is negative, then the digits of its
  magnitude taken as an unsigned 64-bit value (so the least int prints as
  \<open>-9223372036854775808\<close>).
\<close>

definition Sprintf_d_int :: "goint \<Rightarrow> string" where
  "Sprintf_d_int i =
     (if sint i < 0 then CHR ''-'' # decimal (unat (- i)) else decimal (unat i))"

subsection \<open>strconv.ParseUint(s, 10, 64), strconv.ParseInt(s, 10, 0), strconv.Atoi\<close>

text \<open>
  Go returns a value together with the error; on a range error the value is the largest one
  of the type, and \<open>ParseInt\<close> goes on from it. The pair is kept as it is.
\<close>

definition ParseUint_cutoff :: uint64 where
  "ParseUint_cutoff = 1844674407370955162"   \<comment> \<open>maxUint64 / 10 + 1\<close>

definition maxVal64 :: uint64 where
  "maxVal64 = - 1"   \<comment> \<open>1 << 64 - 1\<close>

definition lower :: "nat \<Rightarrow> nat" where
  "lower c = c OR 32"

text \<open>The digit value of one byte in \<open>ParseUint\<close>'s loop; \<open>None\<close> is the syntax error.\<close>

definition ParseUint_digit :: "char \<Rightarrow> nat option" where
  "ParseUint_digit ch =
     (let c = (of_char ch :: nat) in
      if 48 \<le> c \<and> c \<le> 57 then Some (c - 48)
      else if 97 \<le> lower c \<and> lower c \<le> 122 then Some (lower c - 97 + 10)
      else None)"

fun ParseUint_loop :: "string \<Rightarrow> uint64 \<Rightarrow> string \<Rightarrow> uint64 \<times> error option" where
  "ParseUint_loop s0 n [] = (n, None)"
| "ParseUint_loop s0 n (ch # cs) =
     (case ParseUint_digit ch of
        None \<Rightarrow> (0, Some (NumError ''ParseUint'' s0 ErrSyntax))
      | Some d \<Rightarrow>
          if d \<ge> 10 then (0, Some (NumError ''ParseUint'' s0 ErrSyntax))
          else if n \<ge> ParseUint_cutoff then (maxVal64, Some (NumError ''ParseUint'' s0 ErrRange))
          else
            let n' = n * 10; n1 = n' + word_of_nat d in
            if n1 < n' \<or> n1 > maxVal64 then (maxVal64, Some (NumError ''ParseUint'' s0 ErrRange))
            else ParseUint_loop s0 n1 cs)"

definition ParseUint :: "string \<Rightarrow> uint64 \<times> error option" where
  "ParseUint s =
     (if s = [] then (0, Some (NumError ''ParseUint'' s ErrSyntax))
      else ParseUint_loop s 0 s)"

definition ParseInt_cutoff :: uint64 where
  "ParseInt_cutoff = 9223372036854775808"   \<comment> \<open>1 << 63\<close>

text \<open>The range check of \<open>ParseInt\<close> on the unsigned magnitude.\<close>

definition ParseInt_range :: "string \<Rightarrow> bool \<Rightarrow> uint64 \<Rightarrow> goint \<times> error option" where
  "ParseInt_range s0 neg un =
     (if \<not> neg \<and> un \<ge> ParseInt_cutoff
        then (ParseInt_cutoff - 1, Some (NumError ''ParseInt'' s0 ErrRange))
      else if neg \<and> un > ParseInt_cutoff
        then (- ParseInt_cutoff, Some (NumError ''ParseInt'' s0 ErrRange))
      else ((if neg then - un else un), None))"

definition ParseInt :: "string \<Rightarrow> goint \<times> error option" where
  "ParseInt s0 =
     (case s0 of
        [] \<Rightarrow> (0, Some (NumError ''ParseInt'' s0 ErrSyntax))
      | c # r \<Rightarrow>
          (let neg = (c = CHR ''-'');
               s = (if c = CHR ''+'' \<or> c = CHR ''-'' then r else s0)
           in (case ParseUint s of
                 (un, None) \<Rightarrow> ParseInt_range s0 neg un
               | (un, Some (NumError f x ErrRange)) \<Rightarrow> ParseInt_range s0 neg un
               | (un, Some (NumError f x ErrSyntax)) \<Rightarrow> (0, Some (NumError ''ParseInt'' s0 ErrSyntax))
               | (un, Some e) \<Rightarrow> (0, Some e))))"

text \<open>The fast path of \<open>Atoi\<close>: \<open>ch -= '0'\<close> on a byte wraps around below \<open>'0'\<close>.\<close>

fun Atoi_loop :: "string \<Rightarrow> goint \<Rightarrow> string \<Rightarrow> goint \<times> error option" where
  "Atoi_loop s0 n [] = (n, None)"
| "Atoi_loop s0 n (ch # cs) =
     (let d = (of_char ch + 256 - 48) mod (256 :: nat) in
      if d > 9 then (0, Some (NumError ''Atoi'' s0 ErrSyntax))
      else Atoi_loop s0 (n * 10 + word_of_nat d) cs)"

definition Atoi :: "string \<Rightarrow> goint \<times> error option" where
  "Atoi s0 =
     (if 0 < length s0 \<and> length s0 < 19 then
        (let signed = (hd s0 = CHR ''-'' \<or> hd s0 = CHR ''+'');
             s = (if signed then tl s0 else s0)
         in if signed \<and> length s < 1 then (0, Some (NumError ''Atoi'' s0 ErrSyntax))
            else case Atoi_loop s0 0 s of
                   (n, None) \<Rightarrow> (if hd s0 = CHR ''-'' then - n else n, None)
                 | (n, Some e) \<Rightarrow> (n, Some e))
      else
        (case ParseInt s0 of
           (i64, Some (NumError f x k)) \<Rightarrow> (i64, Some (NumError ''Atoi'' x k))
         | r \<Rightarrow> r))"

text \<open>
  The number that a string of decimal digits denotes after the digits read so far denote
  \<open>a\<close>; the proofs about the parsers are stated with it.
\<close>

fun dec_val :: "nat \<Rightarrow> string \<Rightarrow> nat" where
  "dec_val a [] = a"
| "dec_val a (c # cs) = dec_val (a * 10 + (of_char c - 48)) cs"

section \<open>components/os: the Output of the OS collector and its Health States\<close>

record Host =
  ID :: string

record Kernel =
  Arch :: string
  Kernel_Version :: string

record Platform =
  Platform_Name :: string
  Family :: string
  Platform_Version :: string

record Uptimes =
  Seconds :: uint64
  SecondsHumanized :: string
  BootTimeUnixSeconds :: uint64
  BootTimeHumanized :: string

record Output =
  Host :: Host
  Kernel :: Kernel
  Platform :: Platform
  Uptimes :: Uptimes
  ProcessCountZombieProcesses :: goint

text \<open>
  \<open>components.State\<close> with the four fields that the collector fills. \<open>ExtraInfo\<close> is a
  Go \<open>map[string]string\<close>: reading a key that is absent gives the empty string.
\<close>

record State =
  Name :: string
  Healthy :: bool
  Reason :: string
  ExtraInfo :: "string \<rightharpoonup> string"

definition index :: "(string \<rightharpoonup> string) \<Rightarrow> string \<Rightarrow> string" where
  "index m k = (case m k of None \<Rightarrow> [] | Some v \<Rightarrow> v)"

definition StateNameHost :: string where "StateNameHost = ''host''"
definition StateKeyHostID :: string where "StateKeyHostID = ''id''"
definition StateNameKernel :: string where "StateNameKernel = ''kernel''"
definition StateKeyKernelArch :: string where "StateKeyKernelArch = ''arch''"
definition StateKeyKernelVersion :: string where "StateKeyKernelVersion = ''version''"
definition StateNamePlatform :: string where "StateNamePlatform = ''platform''"
definition StateKeyPlatformName :: string where "StateKeyPlatformName = ''name''"
definition StateKeyPlatformFamily :: string where "StateKeyPlatformFamily = ''family''"
definition StateKeyPlatformVersion :: string where "StateKeyPlatformVersion = ''version''"
definition StateNameUptimes :: string where "StateNameUptimes = ''uptimes''"
definition StateKeyUptimesSeconds :: string where "StateKeyUptimesSeconds = ''uptime_seconds''"
definition StateKeyUptimesHumanized :: string where "StateKeyUptimesHumanized = ''uptime_humanized''"
definition StateKeyUptimesBootTimeUnixSeconds :: string where
  "StateKeyUptimesBootTimeUnixSeconds = ''boot_time_unix_seconds''"
definition StateKeyUptimesBootTimeHumanized :: string where
  "StateKeyUptimesBootTimeHumanized = ''boot_time_humanized''"
definition StateNameProcessCountsByStatus :: string where
  "StateNameProcessCountsByStatus = ''process_counts_by_status''"
definition StateKeyProcessCountZombieProcesses :: string where
  "StateKeyProcessCountZombieProcesses = ''process_count_zombie_processes''"

definition zeroUptimes :: Uptimes where
  "zeroUptimes = \<lparr>Seconds = 0, SecondsHumanized = [], BootTimeUnixSeconds = 0, BootTimeHumanized = []\<rparr>"

definition zeroOutput :: Output where
  "zeroOutput =
     \<lparr>Host = \<lparr>ID = []\<rparr>,
      Kernel = \<lparr>Arch = [], Kernel_Version = []\<rparr>,
      Platform = \<lparr>Platform_Name = [], Family = [], Platform_Version = []\<rparr>,
      Uptimes = zeroUptimes,
      ProcessCountZombieProcesses = 0\<rparr>"

definition ParseStateHost :: "(string \<rightharpoonup> string) \<Rightarrow> error + Host" where
  "ParseStateHost m = Inr \<lparr>ID = index m StateKeyHostID\<rparr>"

definition ParseStateKernel :: "(string \<rightharpoonup> string) \<Rightarrow> error + Kernel" where
  "ParseStateKernel m =
     Inr \<lparr>Arch = index m StateKeyKernelArch, Kernel_Version = index m StateKeyKernelVersion\<rparr>"

definition ParseStatePlatform :: "(string \<rightharpoonup> string) \<Rightarrow> error + Platform" where
  "ParseStatePlatform m =
     Inr \<lparr>Platform_Name = index m StateKeyPlatformName,
          Family = index m StateKeyPlatformFamily,
          Platform_Version = index m StateKeyPlatformVersion\<rparr>"

definition ParseStateUptimes :: "(string \<rightharpoonup> string) \<Rightarrow> error + Uptimes" where
  "ParseStateUptimes m =
     (case ParseUint (index m StateKeyUptimesSeconds) of
        (v, Some err) \<Rightarrow> Inl err
      | (seconds, None) \<Rightarrow>
          (case ParseUint (index m StateKeyUptimesBootTimeUnixSeconds) of
             (v, Some err) \<Rightarrow> Inl err
           | (boot, None) \<Rightarrow>
               Inr \<lparr>Seconds = seconds,
                    SecondsHumanized = index m StateKeyUptimesHumanized,
                    BootTimeUnixSeconds = boot,
                    BootTimeHumanized = index m StateKeyUptimesBootTimeHumanized\<rparr>))"

definition ParseStateProcessCountZombieProcesses :: "(string \<rightharpoonup> string) \<Rightarrow> error + goint" where
  "ParseStateProcessCountZombieProcesses m =
     (case m StateKeyProcessCountZombieProcesses of
        Some s \<Rightarrow>
          (case Atoi s of
             (v, Some err) \<Rightarrow> Inl err
           | (count, None) \<Rightarrow> Inr count)
      | None \<Rightarrow> Inr 0)"

text \<open>
  The loop of \<open>ParseStatesToOutput\<close> over the states, with the Output built so far; the
  first error ends it.
\<close>

fun ParseStatesToOutput_loop :: "Output \<Rightarrow> State list \<Rightarrow> error + Output" where
  "ParseStatesToOutput_loop o' [] = Inr o'"
| "ParseStatesToOutput_loop o' (state # states) =
     (if Name state = StateNameHost then
        (case ParseStateHost (ExtraInfo state) of
           Inl err \<Rightarrow> Inl err
         | Inr host \<Rightarrow> ParseStatesToOutput_loop (o'\<lparr>Host := host\<rparr>) states)
      else if Name state = StateNameKernel then
        (case ParseStateKernel (ExtraInfo state) of
           Inl err \<Rightarrow> Inl err
         | Inr kernel' \<Rightarrow> ParseStatesToOutput_loop (o'\<lparr>Kernel := kernel'\<rparr>) states)
      else if Name state = StateNamePlatform then
        (case ParseStatePlatform (ExtraInfo state) of
           Inl err \<Rightarrow> Inl err
         | Inr platform \<Rightarrow> ParseStatesToOutput_loop (o'\<lparr>Platform := platform\<rparr>) states)
      else if Name state = StateNameUptimes then
        (case ParseStateUptimes (ExtraInfo state) of
           Inl err \<Rightarrow> Inl err
         | Inr uptimes \<Rightarrow> ParseStatesToOutput_loop (o'\<lparr>Uptimes := uptimes\<rparr>) states)
      else if Name state = StateNameProcessCountsByStatus then
        (case ParseStateProcessCountZombieProcesses (ExtraInfo state) of
           Inl err \<Rightarrow> Inl err
         | Inr count \<Rightarrow>
             ParseStatesToOutput_loop (o'\<lparr>ProcessCountZombieProcesses := count\<rparr>) states)
      else Inl (UnknownStateName (Name state)))"

definition ParseStatesToOutput :: "State list \<Rightarrow> error + Output" where
  "ParseStatesToOutput states = ParseStatesToOutput_loop zeroOutput states"

text \<open>The five names that the \<open>switch\<close> of \<open>ParseStatesToOutput\<close> knows.\<close>

definition known_state_names :: "string set" where
  "known_state_names =
     {StateNameHost, StateNameKernel, StateNamePlatform, StateNameUptimes,
      StateNameProcessCountsByStatus}"

text \<open>
  \<open>States\<close> reads the package variable \<open>DefaultZombieProcessCountThreshold\<close>, which
  \<open>init\<close> sets once from the host's file-descriptor limit; it is the first argument here.
  The comparison of the two \<open>int\<close>s is signed.
\<close>

definition States :: "goint \<Rightarrow> Output \<Rightarrow> State list \<times> error option" where
  "States DefaultZombieProcessCountThreshold o' =
     (let states =
        [\<lparr>Name = StateNameHost, Healthy = True,
          Reason = ''host id: '' @ ID (Host o'),
          ExtraInfo = [StateKeyHostID \<mapsto> ID (Host o')]\<rparr>,
         \<lparr>Name = StateNameKernel, Healthy = True,
          Reason = ''arch: '' @ Arch (Kernel o') @ '', version: '' @ Kernel_Version (Kernel o'),
          ExtraInfo = [StateKeyKernelArch \<mapsto> Arch (Kernel o'),
                       StateKeyKernelVersion \<mapsto> Kernel_Version (Kernel o')]\<rparr>,
         \<lparr>Name = StateNamePlatform, Healthy = True,
          Reason = ''name: '' @ Platform_Name (Platform o') @ '', family: '' @ Family (Platform o')
                   @ '', version: '' @ Platform_Version (Platform o'),
          ExtraInfo = [StateKeyPlatformName \<mapsto> Platform_Name (Platform o'),
                       StateKeyPlatformFamily \<mapsto> Family (Platform o'),
                       StateKeyPlatformVersion \<mapsto> Platform_Version (Platform o')]\<rparr>,
         \<lparr>Name = StateNameUptimes, Healthy = True,
          Reason = ''uptime: '' @ SecondsHumanized (Uptimes o') @ '', boot time: ''
                   @ BootTimeHumanized (Uptimes o'),
          ExtraInfo = [StateKeyUptimesSeconds \<mapsto> Sprintf_d_uint64 (Seconds (Uptimes o')),
                       StateKeyUptimesHumanized \<mapsto> SecondsHumanized (Uptimes o'),
                       StateKeyUptimesBootTimeUnixSeconds \<mapsto>
                         Sprintf_d_uint64 (BootTimeUnixSeconds (Uptimes o')),
                       StateKeyUptimesBootTimeHumanized \<mapsto> BootTimeHumanized (Uptimes o')]\<rparr>];
          stateProcCounts =
            \<lparr>Name = StateNameProcessCountsByStatus, Healthy = True, Reason = [],
             ExtraInfo = [StateKeyProcessCountZombieProcesses \<mapsto>
                            Sprintf_d_int (ProcessCountZombieProcesses o')]\<rparr>;
          stateProcCounts' =
            (if DefaultZombieProcessCountThreshold \<le>s ProcessCountZombieProcesses o' then
               stateProcCounts
                 \<lparr>Healthy := False,
                  Reason := ''too many zombie processes: ''
                            @ Sprintf_d_int (ProcessCountZombieProcesses o') @ '' (threshold: ''
                            @ Sprintf_d_int DefaultZombieProcessCountThreshold @ '')''\<rparr>
             else
               stateProcCounts
                 \<lparr>Reason := ''zombie processes: ''
                            @ Sprintf_d_int (ProcessCountZombieProcesses o') @ '' (threshold: ''
                            @ Sprintf_d_int DefaultZombieProcessCountThreshold @ '')''\<rparr>)
      in (states @ [stateProcCounts'], None))"

subsection \<open>JSON() and ParseOutputJSON: the calls into encoding/json\<close>

text \<open>
  \<open>JSON\<close> is \<open>json.Marshal(o)\<close> and \<open>ParseOutputJSON\<close> is \<open>json.Unmarshal(data, o)\<close>
  on a fresh Output. The package encoding/json is Go's standard library; what follows is
  its behaviour on the type Output (structs of strings, \<open>uint64\<close> and \<open>int\<close>, with the
  \<open>json\<close> tags of the source as keys), byte for byte.
\<close>

subsubsection \<open>unicode/utf8\<close>

definition RuneError :: nat where
  "RuneError = 0xFFFD"

text \<open>
  \<open>utf8.DecodeRuneInString\<close>: the rune at the head of the bytes and its width.
  \<open>(RuneError, 1)\<close> is an invalid byte, \<open>(RuneError, 0)\<close> the empty string. The masks and
  shifts of the source are written with \<open>mod\<close> and multiplication.
\<close>

fun DecodeRune :: "string \<Rightarrow> nat \<times> nat" where
  "DecodeRune [] = (RuneError, 0)"
| "DecodeRune (c0 # s) =
     (let s0 = (of_char c0 :: nat) in
      if s0 < 0x80 then (s0, 1)
      else if s0 < 0xC2 \<or> 0xF5 \<le> s0 then (RuneError, 1)
      else
        let sz = (if s0 < 0xE0 then 2 else if s0 < 0xF0 then 3 else 4 :: nat);
            lo = (if s0 = 0xE0 then 0xA0 else if s0 = 0xF0 then 0x90 else 0x80 :: nat);
            hi = (if s0 = 0xED then 0x9F else if s0 = 0xF4 then 0x8F else 0xBF :: nat)
        in if Suc (length s) < sz then (RuneError, 1)
           else
             let s1 = (of_char (s ! 0) :: nat) in
             if s1 < lo \<or> hi < s1 then (RuneError, 1)
             else if sz \<le> 2 then ((s0 mod 32) * 64 + s1 mod 64, 2)
             else
               let s2 = (of_char (s ! 1) :: nat) in
               if s2 < 0x80 \<or> 0xBF < s2 then (RuneError, 1)
               else if sz \<le> 3 then ((s0 mod 16) * 4096 + (s1 mod 64) * 64 + s2 mod 64, 3)
               else
                 let s3 = (of_char (s ! 2) :: nat) in
                 if s3 < 0x80 \<or> 0xBF < s3 then (RuneError, 1)
                 else ((s0 mod 8) * 262144 + (s1 mod 64) * 4096 + (s2 mod 64) * 64 + s3 mod 64, 4))"

text \<open>\<open>utf8.EncodeRune\<close>; a surrogate or a value beyond U+10FFFF is written as U+FFFD.\<close>

definition EncodeRune :: "nat \<Rightarrow> string" where
  "EncodeRune r =
     (if r \<le> 0x7F then [char_of r]
      else if r \<le> 0x7FF then [char_of (0xC0 + r div 64), char_of (0x80 + r mod 64)]
      else if 0x10FFFF < r \<or> (0xD800 \<le> r \<and> r \<le> 0xDFFF) then
        [char_of (0xEF::nat), char_of (0xBF::nat), char_of (0xBD::nat)]
      else if r \<le> 0xFFFF then
        [char_of (0xE0 + r div 4096), char_of (0x80 + (r div 64) mod 64), char_of (0x80 + r mod 64)]
      else
        [char_of (0xF0 + r div 262144), char_of (0x80 + (r div 4096) mod 64),
         char_of (0x80 + (r div 64) mod 64), char_of (0x80 + r mod 64)])"

text \<open>\<open>utf8.ValidString\<close>: no byte of the string decodes as an invalid byte.\<close>

fun ValidString :: "string \<Rightarrow> bool" where
  "ValidString [] = True"
| "ValidString (c # s) =
     (case DecodeRune (c # s) of
        (r, sz) \<Rightarrow> \<not> (r = RuneError \<and> sz = 1) \<and> ValidString (drop (sz - 1) s))"

text \<open>
  A string coerced to valid UTF-8 the way the encoder does it: each invalid byte becomes
  U+FFFD, every other rune stays.
\<close>

fun coerceUTF8 :: "string \<Rightarrow> string" where
  "coerceUTF8 [] = []"
| "coerceUTF8 (c # s) =
     (case DecodeRune (c # s) of
        (r, sz) \<Rightarrow>
          if r = RuneError \<and> sz = 1 then EncodeRune RuneError @ coerceUTF8 s
          else take sz (c # s) @ coerceUTF8 (drop (sz - 1) s))"

subsubsection \<open>json.Marshal on an Output\<close>

definition dq :: char where "dq = CHR 0x22"   \<comment> \<open>the double quote\<close>
definition bs :: char where "bs = CHR 0x5C"   \<comment> \<open>the backslash\<close>

definition hex :: "nat \<Rightarrow> char" where
  "hex n = ''0123456789abcdef'' ! n"

text \<open>
  \<open>htmlSafeSet\<close>: the ASCII bytes that the encoder copies as they are when it escapes
  HTML, as \<open>Marshal\<close> does.
\<close>

definition htmlSafe :: "char \<Rightarrow> bool" where
  "htmlSafe c =
     (0x20 \<le> (of_char c :: nat) \<and> c \<noteq> dq \<and> c \<noteq> CHR ''&'' \<and> c \<noteq> CHR ''<'' \<and> c \<noteq> CHR ''>''
      \<and> c \<noteq> bs)"

definition escape :: "char \<Rightarrow> string" where
  "escape c =
     (if c = bs \<or> c = dq then [bs, c]
      else if c = CHR 0x08 then [bs, CHR ''b'']
      else if c = CHR 0x0C then [bs, CHR ''f'']
      else if c = CHR 0x0A then [bs, CHR ''n'']
      else if c = CHR 0x0D then [bs, CHR ''r'']
      else if c = CHR 0x09 then [bs, CHR ''t'']
      else [bs, CHR ''u'', CHR ''0'', CHR ''0'', hex (of_char c div 16), hex (of_char c mod 16)])"

text \<open>
  The loop of the encoder's \<open>appendString\<close> between the two quotes. After a rune of width
  \<open>sz\<close> at the head \<open>c\<close> the loop goes on \<open>sz\<close> bytes further, that is at
  \<open>drop (sz - 1) s\<close>.
\<close>

fun quote_body :: "string \<Rightarrow> string" where
  "quote_body [] = []"
| "quote_body (c # s) =
     (if (of_char c :: nat) < 0x80 then
        (if htmlSafe c then [c] else escape c) @ quote_body s
      else
        (case DecodeRune (c # s) of
           (r, sz) \<Rightarrow>
             if r = RuneError \<and> sz = 1 then
               [bs, CHR ''u'', CHR ''f'', CHR ''f'', CHR ''f'', CHR ''d''] @ quote_body s
             else if r = 0x2028 \<or> r = 0x2029 then
               [bs, CHR ''u'', CHR ''2'', CHR ''0'', CHR ''2'', hex (r mod 16)]
               @ quote_body (drop (sz - 1) s)
             else take sz (c # s) @ quote_body (drop (sz - 1) s)))"

definition appendString :: "string \<Rightarrow> string" where
  "appendString s = dq # quote_body s @ [dq]"

text \<open>A field's key, quoted, and the colon. The keys are the \<open>json\<close> tags of the fields.\<close>

definition key :: "string \<Rightarrow> string" where
  "key name = dq # name @ [dq, CHR '':'']"

text \<open>
  Each struct is written as an object with its fields in the order of declaration; the
  integers are written in decimal, as \<open>%d\<close> writes them.
\<close>

definition Marshal_Host :: "Host \<Rightarrow> string" where
  "Marshal_Host h = ''{'' @ key ''id'' @ appendString (ID h) @ ''}''"

definition Marshal_Kernel :: "Kernel \<Rightarrow> string" where
  "Marshal_Kernel k =
     ''{'' @ key ''arch'' @ appendString (Arch k)
     @ '','' @ key ''version'' @ appendString (Kernel_Version k) @ ''}''"

definition Marshal_Platform :: "Platform \<Rightarrow> string" where
  "Marshal_Platform p =
     ''{'' @ key ''name'' @ appendString (Platform_Name p)
     @ '','' @ key ''family'' @ appendString (Family p)
     @ '','' @ key ''version'' @ appendString (Platform_Version p) @ ''}''"

definition Marshal_Uptimes :: "Uptimes \<Rightarrow> string" where
  "Marshal_Uptimes u =
     ''{'' @ key ''seconds'' @ Sprintf_d_uint64 (Seconds u)
     @ '','' @ key ''seconds_humanized'' @ appendString (SecondsHumanized u)
     @ '','' @ key ''boot_time_unix_seconds'' @ Sprintf_d_uint64 (BootTimeUnixSeconds u)
     @ '','' @ key ''boot_time_humanized'' @ appendString (BootTimeHumanized u) @ ''}''"

definition Marshal_Output :: "Output \<Rightarrow> string" where
  "Marshal_Output o' =
     ''{'' @ key ''host'' @ Marshal_Host (Host o')
     @ '','' @ key ''kernel'' @ Marshal_Kernel (Kernel o')
     @ '','' @ key ''platform'' @ Marshal_Platform (Platform o')
     @ '','' @ key ''uptimes'' @ Marshal_Uptimes (Uptimes o')
     @ '','' @ key ''process_count_zombie_processes''
     @ Sprintf_d_int (ProcessCountZombieProcesses o') @ ''}''"

datatype json_error = SyntaxError | UnmarshalTypeError string

definition JSON :: "Output \<Rightarrow> string \<times> json_error option" where
  "JSON o' = (Marshal_Output o', None)"

subsubsection \<open>json.Unmarshal into an Output\<close>

text \<open>
  \<open>Unmarshal\<close> first checks that the whole input is one JSON value (\<open>checkValid\<close>) and
  then decodes it into the target. Here the input is read into a value of type \<open>json\<close>,
  which fails exactly on a syntax error, and that value is then stored into the Output.
\<close>

datatype json =
    JNull
  | JBool bool
  | JNumber string
  | JString string
  | JArray "json list"
  | JObject "(string \<times> json) list"

definition is_space :: "char \<Rightarrow> bool" where
  "is_space c = (c = CHR '' '' \<or> c = CHR 0x09 \<or> c = CHR 0x0D \<or> c = CHR 0x0A)"

fun skip_ws :: "string \<Rightarrow> string" where
  "skip_ws [] = []"
| "skip_ws (c # s) = (if is_space c then skip_ws s else c # s)"

definition is_hex :: "char \<Rightarrow> bool" where
  "is_hex c = (let b = (of_char c :: nat) in
     (48 \<le> b \<and> b \<le> 57) \<or> (97 \<le> b \<and> b \<le> 102) \<or> (65 \<le> b \<and> b \<le> 70))"

text \<open>
  The scanner inside a string literal, after the opening quote: the bytes up to the closing
  quote (collected in \<open>acc\<close>) and the rest of the input.
\<close>

fun scan_string :: "string \<Rightarrow> string \<Rightarrow> (string \<times> string) option" where
  "scan_string acc [] = None"
| "scan_string acc (c # s) =
     (if c = dq then Some (acc, s)
      else if c = bs then
        (case s of
           [] \<Rightarrow> None
         | e # s' \<Rightarrow>
             if e \<in> set ''bfnrt'' \<or> e = bs \<or> e = CHR ''/'' \<or> e = dq then scan_string (acc @ [c, e]) s'
             else if e = CHR ''u'' then
               (case s' of
                  h1 # h2 # h3 # h4 # s'' \<Rightarrow>
                    if is_hex h1 \<and> is_hex h2 \<and> is_hex h3 \<and> is_hex h4
                    then scan_string (acc @ [c, e, h1, h2, h3, h4]) s''
                    else None
                | _ \<Rightarrow> None)
             else None)
      else if (of_char c :: nat) < 0x20 then None
      else scan_string (acc @ [c]) s)"

definition hexval :: "char \<Rightarrow> nat option" where
  "hexval c = (let b = (of_char c :: nat) in
     if 48 \<le> b \<and> b \<le> 57 then Some (b - 48)
     else if 97 \<le> b \<and> b \<le> 102 then Some (b - 97 + 10)
     else if 65 \<le> b \<and> b \<le> 70 then Some (b - 65 + 10)
     else None)"

text \<open>\<open>getu4\<close>: the number of a \<^verbatim>\<open>\uXXXX\<close> at the head; \<open>None\<close> is its \<open>-1\<close>.\<close>

definition getu4 :: "string \<Rightarrow> nat option" where
  "getu4 s =
     (case s of
        b # u # h1 # h2 # h3 # h4 # t \<Rightarrow>
          if b = bs \<and> u = CHR ''u'' then
            (case (hexval h1, hexval h2, hexval h3, hexval h4) of
               (Some x1, Some x2, Some x3, Some x4) \<Rightarrow> Some (((x1 * 16 + x2) * 16 + x3) * 16 + x4)
             | _ \<Rightarrow> None)
          else None
      | _ \<Rightarrow> None)"

definition IsSurrogate :: "nat \<Rightarrow> bool" where
  "IsSurrogate r = (0xD800 \<le> r \<and> r < 0xE000)"

text \<open>\<open>utf16.DecodeRune\<close> of a pair, the second half being what \<open>getu4\<close> found.\<close>

definition utf16_DecodeRune :: "nat \<Rightarrow> nat option \<Rightarrow> nat" where
  "utf16_DecodeRune r1 r2' =
     (case r2' of
        Some r2 \<Rightarrow>
          if 0xD800 \<le> r1 \<and> r1 < 0xDC00 \<and> 0xDC00 \<le> r2 \<and> r2 < 0xE000
          then (r1 - 0xD800) * 1024 + (r2 - 0xDC00) + 0x10000
          else RuneError
      | None \<Rightarrow> RuneError)"

text \<open>
  The loop of \<open>unquoteBytes\<close> over the bytes between the quotes. (Its first loop, which
  returns a literal without anything to unquote as it is, gives the same bytes and is left
  out.)
\<close>

fun unquote_loop :: "string \<Rightarrow> string option" where
  "unquote_loop [] = Some []"
| "unquote_loop (c # s) =
     (if c = bs then
        (case s of
           [] \<Rightarrow> None
         | e # s' \<Rightarrow>
             if e = dq \<or> e = bs \<or> e = CHR ''/'' \<or> e = CHR 0x27 then map_option ((#) e) (unquote_loop s')
             else if e = CHR ''b'' then map_option ((#) (CHR 0x08)) (unquote_loop s')
             else if e = CHR ''f'' then map_option ((#) (CHR 0x0C)) (unquote_loop s')
             else if e = CHR ''n'' then map_option ((#) (CHR 0x0A)) (unquote_loop s')
             else if e = CHR ''r'' then map_option ((#) (CHR 0x0D)) (unquote_loop s')
             else if e = CHR ''t'' then map_option ((#) (CHR 0x09)) (unquote_loop s')
             else if e = CHR ''u'' then
               (case getu4 (c # s) of
                  None \<Rightarrow> None
                | Some rr \<Rightarrow>
                    if IsSurrogate rr then
                      (if utf16_DecodeRune rr (getu4 (drop 4 s')) \<noteq> RuneError
                       then map_option ((@) (EncodeRune (utf16_DecodeRune rr (getu4 (drop 4 s')))))
                              (unquote_loop (drop 10 s'))
                       else map_option ((@) (EncodeRune RuneError)) (unquote_loop (drop 4 s')))
                    else map_option ((@) (EncodeRune rr)) (unquote_loop (drop 4 s')))
             else None)
      else if c = dq \<or> (of_char c :: nat) < 0x20 then None
      else if (of_char c :: nat) < 0x80 then map_option ((#) c) (unquote_loop s)
      else
        (case DecodeRune (c # s) of
           (rr, sz) \<Rightarrow> map_option ((@) (EncodeRune rr)) (unquote_loop (drop (sz - 1) s))))"

definition read_string :: "string \<Rightarrow> (string \<times> string) option" where
  "read_string s =
     (case scan_string [] s of
        None \<Rightarrow> None
      | Some (raw, rest) \<Rightarrow>
          (case unquote_loop raw of
             None \<Rightarrow> None
           | Some v \<Rightarrow> Some (v, rest)))"

text \<open>
  The scanner on a number: an optional minus, \<open>0\<close> or a digit from 1 to 9 with more
  digits, an optional fraction, an optional exponent. The literal and the rest.
\<close>

definition scan_exp :: "string \<Rightarrow> string \<Rightarrow> (string \<times> string) option" where
  "scan_exp acc s =
     (case s of
        [] \<Rightarrow> Some (acc, s)
      | e # r \<Rightarrow>
          if e = CHR ''e'' \<or> e = CHR ''E'' then
            (let sg = (case r of [] \<Rightarrow> [] | g # r' \<Rightarrow> if g = CHR ''+'' \<or> g = CHR ''-'' then [g] else []);
                 r1 = drop (length sg) r
             in case r1 of
                  [] \<Rightarrow> None
                | d # r2 \<Rightarrow>
                    if is_digit d
                    then Some (acc @ e # sg @ d # takeWhile is_digit r2, dropWhile is_digit r2)
                    else None)
          else Some (acc, s))"

definition scan_frac :: "string \<Rightarrow> string \<Rightarrow> (string \<times> string) option" where
  "scan_frac acc s =
     (case s of
        [] \<Rightarrow> Some (acc, s)
      | p # r \<Rightarrow>
          if p = CHR ''.'' then
            (case r of
               [] \<Rightarrow> None
             | d # r' \<Rightarrow>
                 if is_digit d
                 then scan_exp (acc @ p # d # takeWhile is_digit r') (dropWhile is_digit r')
                 else None)
          else scan_exp acc s)"

definition scan_number :: "string \<Rightarrow> (string \<times> string) option" where
  "scan_number s =
     (let sg = (case s of [] \<Rightarrow> [] | g # r \<Rightarrow> if g = CHR ''-'' then [g] else []);
          s1 = drop (length sg) s
      in case s1 of
           [] \<Rightarrow> None
         | d # r \<Rightarrow>
             if d = CHR ''0'' then scan_frac (sg @ [d]) r
             else if is_digit d then scan_frac (sg @ d # takeWhile is_digit r) (dropWhile is_digit r)
             else None)"

definition maxNestingDepth :: nat where
  "maxNestingDepth = 10000"

text \<open>
  One JSON value at the head of the input, and the rest. The first argument bounds the
  depth of the calls. Of two calls in a row at least one reads a byte before it calls
  again (only \<open>parse_elements\<close> hands its whole input to \<open>parse_value\<close>), so the bound
  that \<open>Unmarshal\<close> passes, twice the length of the input and two, is not reached
  (\<open>Unmarshal_fuel_enough\<close> in the theorems). The
  second argument is the nesting depth of arrays and objects, which the scanner limits.
\<close>

fun parse_value :: "nat \<Rightarrow> nat \<Rightarrow> string \<Rightarrow> (json \<times> string) option"
and parse_members :: "nat \<Rightarrow> nat \<Rightarrow> string \<Rightarrow> ((string \<times> json) list \<times> string) option"
and parse_elements :: "nat \<Rightarrow> nat \<Rightarrow> string \<Rightarrow> (json list \<times> string) option"
where
  "parse_value 0 depth s = None"
| "parse_value (Suc fuel) depth s =
     (case skip_ws s of
        [] \<Rightarrow> None
      | c # r \<Rightarrow>
          if c = CHR ''{'' then
            (if maxNestingDepth \<le> depth then None
             else if prefix ''}'' (skip_ws r) then Some (JObject [], drop 1 (skip_ws r))
             else map_option (\<lambda>(ms, r'). (JObject ms, r')) (parse_members fuel (Suc depth) r))
          else if c = CHR ''['' then
            (if maxNestingDepth \<le> depth then None
             else if prefix '']'' (skip_ws r) then Some (JArray [], drop 1 (skip_ws r))
             else map_option (\<lambda>(es, r'). (JArray es, r')) (parse_elements fuel (Suc depth) r))
          else if c = dq then map_option (\<lambda>(v, r'). (JString v, r')) (read_string r)
          else if c = CHR ''-'' \<or> is_digit c then
            map_option (\<lambda>(n, r'). (JNumber n, r')) (scan_number (c # r))
          else if prefix ''true'' (c # r) then Some (JBool True, drop 4 (c # r))
          else if prefix ''false'' (c # r) then Some (JBool False, drop 5 (c # r))
          else if prefix ''null'' (c # r) then Some (JNull, drop 4 (c # r))
          else None)"
| "parse_members 0 depth s = None"
| "parse_members (Suc fuel) depth s =
     (case skip_ws s of
        [] \<Rightarrow> None
      | c # r \<Rightarrow>
          if c = dq then
            (case read_string r of
               None \<Rightarrow> None
             | Some (k, r1) \<Rightarrow>
                 if prefix '':'' (skip_ws r1) then
                   (case parse_value fuel depth (drop 1 (skip_ws r1)) of
                      None \<Rightarrow> None
                    | Some (v, r3) \<Rightarrow>
                        if prefix '','' (skip_ws r3) then
                          map_option (\<lambda>(ms, r5). ((k, v) # ms, r5))
                            (parse_members fuel depth (drop 1 (skip_ws r3)))
                        else if prefix ''}'' (skip_ws r3) then Some ([(k, v)], drop 1 (skip_ws r3))
                        else None)
                 else None)
          else None)"
| "parse_elements 0 depth s = None"
| "parse_elements (Suc fuel) depth s =
     (case parse_value fuel depth s of
        None \<Rightarrow> None
      | Some (v, r3) \<Rightarrow>
          if prefix '','' (skip_ws r3) then
            map_option (\<lambda>(es, r5). (v # es, r5)) (parse_elements fuel depth (drop 1 (skip_ws r3)))
          else if prefix '']'' (skip_ws r3) then Some ([v], drop 1 (skip_ws r3))
          else None)"

text \<open>
  Storing a value into a target of a Go type. The state is the target and the first error
  saved so far (\<open>saveError\<close> keeps the first one and decoding goes on). \<open>null\<close> leaves a
  string, an integer or a struct as it is; a value of another kind than the target's is an
  \<open>UnmarshalTypeError\<close> naming the kind.
\<close>

type_synonym 'a store = "json \<Rightarrow> 'a \<times> json_error option \<Rightarrow> 'a \<times> json_error option"

definition saveError :: "json_error option \<Rightarrow> json_error \<Rightarrow> json_error option" where
  "saveError saved err = (case saved of None \<Rightarrow> Some err | Some e \<Rightarrow> Some e)"

fun json_kind :: "json \<Rightarrow> string" where
  "json_kind JNull = ''null''"
| "json_kind (JBool b) = ''bool''"
| "json_kind (JNumber n) = ''number''"
| "json_kind (JString s) = ''string''"
| "json_kind (JArray es) = ''array''"
| "json_kind (JObject ms) = ''object''"

definition store_string :: "string store" where
  "store_string j st =
     (case j of
        JString s \<Rightarrow> (s, snd st)
      | JNull \<Rightarrow> st
      | _ \<Rightarrow> (fst st, saveError (snd st) (UnmarshalTypeError (json_kind j))))"

definition store_uint64 :: "uint64 store" where
  "store_uint64 j st =
     (case j of
        JNumber item \<Rightarrow>
          (case ParseUint item of
             (n, None) \<Rightarrow> (n, snd st)
           | (n, Some err) \<Rightarrow> (fst st, saveError (snd st) (UnmarshalTypeError (''number '' @ item))))
      | JNull \<Rightarrow> st
      | _ \<Rightarrow> (fst st, saveError (snd st) (UnmarshalTypeError (json_kind j))))"

definition store_int :: "goint store" where
  "store_int j st =
     (case j of
        JNumber item \<Rightarrow>
          (case ParseInt item of
             (n, None) \<Rightarrow> (n, snd st)
           | (n, Some err) \<Rightarrow> (fst st, saveError (snd st) (UnmarshalTypeError (''number '' @ item))))
      | JNull \<Rightarrow> st
      | _ \<Rightarrow> (fst st, saveError (snd st) (UnmarshalTypeError (json_kind j))))"

text \<open>
  The field for a key: the field whose name is the key, or else the first field whose name
  equals the key under case folding. The folding follows Unicode's tables, which are not
  modelled: the relation \<open>equalFold\<close> is an argument.
\<close>

definition find_field ::
  "(string \<Rightarrow> string \<Rightarrow> bool) \<Rightarrow> (string \<times> 'f) list \<Rightarrow> string \<Rightarrow> 'f option" where
  "find_field equalFold flds k =
     (case map_of flds k of
        Some f \<Rightarrow> Some f
      | None \<Rightarrow> map_option snd (find (\<lambda>(name, f). equalFold name k) flds))"

text \<open>The members of an object in their order; a key without a field is skipped.\<close>

fun store_members ::
  "(string \<Rightarrow> 'a store option) \<Rightarrow> (string \<times> json) list \<Rightarrow> 'a \<times> json_error option
     \<Rightarrow> 'a \<times> json_error option" where
  "store_members look [] st = st"
| "store_members look ((k, v) # ms) st =
     store_members look ms (case look k of Some f \<Rightarrow> f v st | None \<Rightarrow> st)"

definition store_struct :: "(string \<Rightarrow> 'a store option) \<Rightarrow> 'a store" where
  "store_struct look j st =
     (case j of
        JObject ms \<Rightarrow> store_members look ms st
      | JNull \<Rightarrow> st
      | _ \<Rightarrow> (fst st, saveError (snd st) (UnmarshalTypeError (json_kind j))))"

definition field :: "('a \<Rightarrow> 'b) \<Rightarrow> ('b \<Rightarrow> 'a \<Rightarrow> 'a) \<Rightarrow> 'b store \<Rightarrow> 'a store" where
  "field get put f j st = (case f j (get (fst st), snd st) of (v, e) \<Rightarrow> (put v (fst st), e))"

definition store_Host :: "(string \<Rightarrow> string \<Rightarrow> bool) \<Rightarrow> Host store" where
  "store_Host equalFold =
     store_struct (find_field equalFold
       [(''id'', field ID (\<lambda>v h. h\<lparr>ID := v\<rparr>) store_string)])"

definition store_Kernel :: "(string \<Rightarrow> string \<Rightarrow> bool) \<Rightarrow> Kernel store" where
  "store_Kernel equalFold =
     store_struct (find_field equalFold
       [(''arch'', field Arch (\<lambda>v k. k\<lparr>Arch := v\<rparr>) store_string),
        (''version'', field Kernel_Version (\<lambda>v k. k\<lparr>Kernel_Version := v\<rparr>) store_string)])"

definition store_Platform :: "(string \<Rightarrow> string \<Rightarrow> bool) \<Rightarrow> Platform store" where
  "store_Platform equalFold =
     store_struct (find_field equalFold
       [(''name'', field Platform_Name (\<lambda>v p. p\<lparr>Platform_Name := v\<rparr>) store_string),
        (''family'', field Family (\<lambda>v p. p\<lparr>Family := v\<rparr>) store_string),
        (''version'', field Platform_Version (\<lambda>v p. p\<lparr>Platform_Version := v\<rparr>) store_string)])"

definition store_Uptimes :: "(string \<Rightarrow> string \<Rightarrow> bool) \<Rightarrow> Uptimes store" where
  "store_Uptimes equalFold =
     store_struct (find_field equalFold
       [(''seconds'', field Seconds (\<lambda>v u. u\<lparr>Seconds := v\<rparr>) store_uint64),
        (''seconds_humanized'', field SecondsHumanized (\<lambda>v u. u\<lparr>SecondsHumanized := v\<rparr>) store_string),
        (''boot_time_unix_seconds'',
           field BootTimeUnixSeconds (\<lambda>v u. u\<lparr>BootTimeUnixSeconds := v\<rparr>) store_uint64),
        (''boot_time_humanized'',
           field BootTimeHumanized (\<lambda>v u. u\<lparr>BootTimeHumanized := v\<rparr>) store_string)])"

definition store_Output :: "(string \<Rightarrow> string \<Rightarrow> bool) \<Rightarrow> Output store" where
  "store_Output equalFold =
     store_struct (find_field equalFold
       [(''host'', field Host (\<lambda>v o'. o'\<lparr>Host := v\<rparr>) (store_Host equalFold)),
        (''kernel'', field Kernel (\<lambda>v o'. o'\<lparr>Kernel := v\<rparr>) (store_Kernel equalFold)),
        (''platform'', field Platform (\<lambda>v o'. o'\<lparr>Platform := v\<rparr>) (store_Platform equalFold)),
        (''uptimes'', field Uptimes (\<lambda>v o'. o'\<lparr>Uptimes := v\<rparr>) (store_Uptimes equalFold)),
        (''process_count_zombie_processes'',
           field ProcessCountZombieProcesses (\<lambda>v o'. o'\<lparr>ProcessCountZombieProcesses := v\<rparr>)
             store_int)])"

definition Unmarshal ::
  "(string \<Rightarrow> string \<Rightarrow> bool) \<Rightarrow> string \<Rightarrow> Output \<Rightarrow> Output \<times> json_error option" where
  "Unmarshal equalFold data o' =
     (case parse_value (2 * length data + 2) 0 data of
        None \<Rightarrow> (o', Some SyntaxError)
      | Some (j, rest) \<Rightarrow>
          if skip_ws rest \<noteq> [] then (o', Some SyntaxError)
          else store_Output equalFold j (o', None))"

definition ParseOutputJSON :: "(string \<Rightarrow> string \<Rightarrow> bool) \<Rightarrow> string \<Rightarrow> json_error + Output" where
  "ParseOutputJSON equalFold data =
     (case Unmarshal equalFold data zeroOutput of
        (o', Some err) \<Rightarrow> Inl err
      | (o', None) \<Rightarrow> Inr o')"

subsubsection \<open>Notions for the round trip through JSON\<close>

text \<open>An Output with every string field coerced to valid UTF-8.\<close>

definition coerce_Output :: "Output \<Rightarrow> Output" where
  "coerce_Output o' =
     \<lparr>Host = \<lparr>ID = coerceUTF8 (ID (Host o'))\<rparr>,
      Kernel = \<lparr>Arch = coerceUTF8 (Arch (Kernel o')),
                Kernel_Version = coerceUTF8 (Kernel_Version (Kernel o'))\<rparr>,
      Platform = \<lparr>Platform_Name = coerceUTF8 (Platform_Name (Platform o')),
                  Family = coerceUTF8 (Family (Platform o')),
                  Platform_Version = coerceUTF8 (Platform_Version (Platform o'))\<rparr>,
      Uptimes = \<lparr>Seconds = Seconds (Uptimes o'),
                 SecondsHumanized = coerceUTF8 (SecondsHumanized (Uptimes o')),
                 BootTimeUnixSeconds = BootTimeUnixSeconds (Uptimes o'),
                 BootTimeHumanized = coerceUTF8 (BootTimeHumanized (Uptimes o'))\<rparr>,
      ProcessCountZombieProcesses = ProcessCountZombieProcesses o'\<rparr>"

text \<open>An Output all of whose string fields are valid UTF-8.\<close>

definition valid_Output :: "Output \<Rightarrow> bool" where
  "valid_Output o' =
     (ValidString (ID (Host o')) \<and> ValidString (Arch (Kernel o'))
      \<and> ValidString (Kernel_Version (Kernel o')) \<and> ValidString (Platform_Name (Platform o'))
      \<and> ValidString (Family (Platform o')) \<and> ValidString (Platform_Version (Platform o'))
      \<and> ValidString (SecondsHumanized (Uptimes o')) \<and> ValidString (BootTimeHumanized (Uptimes o')))"

text \<open>A name that the encoder and the decoder leave as it is: safe ASCII bytes only.\<close>

definition plain :: "string \<Rightarrow> bool" where
  "plain name = (\<forall>c \<in> set name. htmlSafe c \<and> (of_char c :: nat) < 0x80)"

text \<open>The JSON values that the marshalled structs are read as.\<close>

definition tree_Host :: "Host \<Rightarrow> json" where
  "tree_Host h = JObject [(''id'', JString (coerceUTF8 (ID h)))]"

definition tree_Kernel :: "Kernel \<Rightarrow> json" where
  "tree_Kernel k = JObject [(''arch'', JString (coerceUTF8 (Arch k))),
                            (''version'', JString (coerceUTF8 (Kernel_Version k)))]"

definition tree_Platform :: "Platform \<Rightarrow> json" where
  "tree_Platform p = JObject [(''name'', JString (coerceUTF8 (Platform_Name p))),
                              (''family'', JString (coerceUTF8 (Family p))),
                              (''version'', JString (coerceUTF8 (Platform_Version p)))]"

definition tree_Uptimes :: "Uptimes \<Rightarrow> json" where
  "tree_Uptimes u = JObject [(''seconds'', JNumber (Sprintf_d_uint64 (Seconds u))),
                             (''seconds_humanized'', JString (coerceUTF8 (SecondsHumanized u))),
                             (''boot_time_unix_seconds'', JNumber (Sprintf_d_uint64 (BootTimeUnixSeconds u))),
                             (''boot_time_humanized'', JString (coerceUTF8 (BootTimeHumanized u)))]"

definition tree_Output :: "Output \<Rightarrow> json" where
  "tree_Output o' = JObject [(''host'', tree_Host (Host o')),
                             (''kernel'', tree_Kernel (Kernel o')),
                             (''platform'', tree_Platform (Platform o')),
                             (''uptimes'', tree_Uptimes (Uptimes o')),
                             (''process_count_zombie_processes'',
                                JNumber (Sprintf_d_int (ProcessCountZombieProcesses o')))]"

section \<open>components/accelerator/nvidia/query/sxid: NVSwitch SXid lines of the kernel log\<close>

subsection \<open>The compiled regular expression\<close>

text \<open>
  \<open>RegexNVSwitchSXidDmesg\<close> is \<^verbatim>\<open>SXid.*?: (\d+),\<close>. The matcher below follows the
  expression piece by piece, in the order in which Go's leftmost-first matching prefers the
  alternatives, and gives the text of the one capture group (\<open>match[1]\<close>); \<open>None\<close> is
  the \<open>nil\<close> of \<open>FindStringSubmatch\<close>. All literal bytes of the expression are ASCII, so
  matching byte by byte and matching rune by rune find the same group.
\<close>

text \<open>
  The rest of \<^verbatim>\<open>\d+\<close> after the digits \<open>acc\<close>, then the comma. The repetition is
  greedy: another digit is taken when there is one. Giving a digit back never helps, because
  the byte to match the comma against would then be that digit.
\<close>

fun match_digits_comma :: "string \<Rightarrow> string \<Rightarrow> string option" where
  "match_digits_comma acc [] = None"
| "match_digits_comma acc (c # r) =
     (if is_digit c then match_digits_comma (acc @ [c]) r
      else if c = CHR '','' then Some acc
      else None)"

text \<open>\<^verbatim>\<open>: (\d+),\<close> at the head of the text.\<close>

fun match_colon_group :: "string \<Rightarrow> string option" where
  "match_colon_group (c1 # c2 # d # r) =
     (if c1 = CHR '':'' \<and> c2 = CHR '' '' \<and> is_digit d then match_digits_comma [d] r else None)"
| "match_colon_group _ = None"

text \<open>
  \<^verbatim>\<open>.*?\<close> followed by the rest: the repetition is lazy, so the rest is tried first and a
  byte is skipped only when the rest does not match here; \<^verbatim>\<open>.\<close> does not match a newline.
\<close>

fun match_lazy_any :: "string \<Rightarrow> string option" where
  "match_lazy_any [] = None"
| "match_lazy_any (c # r) =
     (case match_colon_group (c # r) of
        Some g \<Rightarrow> Some g
      | None \<Rightarrow> if c = CHR 0x0A then None else match_lazy_any r)"

definition match_here :: "string \<Rightarrow> string option" where
  "match_here t = (if prefix ''SXid'' t then match_lazy_any (drop 4 t) else None)"

text \<open>The expression is not anchored: the leftmost position with a match wins.\<close>

fun FindStringSubmatch :: "string \<Rightarrow> string option" where
  "FindStringSubmatch [] = None"
| "FindStringSubmatch (c # r) =
     (case match_here (c # r) of
        Some g \<Rightarrow> Some g
      | None \<Rightarrow> FindStringSubmatch r)"

subsection \<open>ExtractNVSwitchSXid and ParseDmesgLogLine\<close>

definition ExtractNVSwitchSXid :: "string \<Rightarrow> goint" where
  "ExtractNVSwitchSXid line =
     (case FindStringSubmatch line of
        Some m \<Rightarrow> (case Atoi m of (id', None) \<Rightarrow> id' | (id', Some err) \<Rightarrow> 0)
      | None \<Rightarrow> 0)"








section \<open>components/common: suggested actions\<close>

text \<open>
  \<open>SuggestedActions\<close> is not among the source files; its test is. The test names the
  field \<open>RepairActions\<close> and two tags of the type \<open>RepairActionType\<close>; other tags
  are kept apart from these two.
\<close>

datatype RepairActionType =
    RepairActionTypeRebootSystem
  | RepairActionTypeRepairHardware
  | RepairActionTypeOther string

record SuggestedActions =
  RepairActions :: "RepairActionType list"

text \<open>
  Modelled from the spec: the method \<open>RequiresReboot\<close> of \<open>SuggestedActions\<close> is not
  among the source files. The spec says that it is true iff the repair actions contain the
  reboot tag, and that it is computed from them, not stored: it walks the actions.
\<close>

fun RequiresReboot_loop :: "RepairActionType list \<Rightarrow> bool" where
  "RequiresReboot_loop [] = False"
| "RequiresReboot_loop (action # actions) =
     (if action = RepairActionTypeRebootSystem then True else RequiresReboot_loop actions)"

text \<open>
  Modelled from the spec: \<open>RequiresReboot\<close> (not among the source files) on the actions
  of the receiver.
\<close>

definition RequiresReboot :: "SuggestedActions \<Rightarrow> bool" where
  "RequiresReboot sa = RequiresReboot_loop (RepairActions sa)"

section \<open>Subprocesses: pkg/reboot and the PCI listing\<close>

text \<open>\<open>strings.Contains\<close>.\<close>

fun Contains :: "string \<Rightarrow> string \<Rightarrow> bool" where
  "Contains [] substr = (substr = [])"
| "Contains (c # s) substr = (prefix substr (c # s) \<or> Contains s substr)"

text \<open>
  The process runner (\<open>pkg/process\<close>) is outside the modelled code. One run of a subprocess
  is what it hands to its caller: the errors of \<open>process.New\<close> and of \<open>Start\<close>, the lines
  that the scanner yields, each with what the non-blocking \<open>select\<close> on \<open>Wait()\<close> finds
  after it (\<open>None\<close>: nothing yet, the \<open>default\<close> branch; \<open>Some e\<close>: the exit error
  \<open>e\<close>, possibly \<open>nil\<close>), and the scanner's final error.
\<close>

record ProcessRun =
  new_err :: "error option"
  start_err :: "error option"
  scanned :: "(string \<times> error option option) list"
  scan_err :: "error option"

text \<open>What the callers do to the outside world, in order.\<close>

datatype event =
    ProcessNew string
  | ProcessStart
  | Println string
  | LogInfow string
  | GoDelayedReboot goint

record Op =
  delaySeconds :: goint
  useSystemctl :: bool

type_synonym OpOption = "Op \<Rightarrow> Op"

definition applyOpts :: "Op \<Rightarrow> OpOption list \<Rightarrow> Op \<times> error option" where
  "applyOpts op opts = (fold (\<lambda>opt op'. opt op') opts op, None)"

definition WithDelaySeconds :: "goint \<Rightarrow> OpOption" where
  "WithDelaySeconds d = (\<lambda>op. op\<lparr>delaySeconds := d\<rparr>)"

definition WithSystemctl :: "bool \<Rightarrow> OpOption" where
  "WithSystemctl b = (\<lambda>op. op\<lparr>useSystemctl := b\<rparr>)"

text \<open>The scanning loop of \<open>rebootFunc\<close>; \<open>Some err\<close> is the return from inside the loop.\<close>

fun reboot_scan ::
  "(string \<times> error option option) list \<Rightarrow> event list \<Rightarrow> error option \<times> event list" where
  "reboot_scan [] tr = (None, tr)"
| "reboot_scan ((line, w) # rest) tr =
     (case w of
        Some (Some err) \<Rightarrow> (Some err, tr @ [Println (''stdout: '' @ line)])
      | _ \<Rightarrow> reboot_scan rest (tr @ [Println (''stdout: '' @ line)]))"

text \<open>
  \<open>rebootFunc\<close> is a closure inside \<open>Reboot\<close>. Its \<open>return err\<close> after the scan names the
  variable \<open>err\<close> of \<open>Reboot\<close> that \<open>process.New\<close> assigned (the \<open>err\<close> of \<open>Start\<close>
  and of the \<open>select\<close> are scoped to their own statements): it is the argument \<open>err\<close>.
\<close>

definition rebootFunc ::
  "ProcessRun \<Rightarrow> string \<Rightarrow> error option \<Rightarrow> event list \<Rightarrow> error option \<times> event list" where
  "rebootFunc run cmd err tr =
     (case start_err run of
        Some e \<Rightarrow> (Some e, tr @ [ProcessStart])
      | None \<Rightarrow>
          (case reboot_scan (scanned run) (tr @ [ProcessStart]) of
             (Some e, tr') \<Rightarrow> (Some e, tr')
           | (None, tr') \<Rightarrow>
               (case scan_err run of
                  Some serr \<Rightarrow>
                    if \<not> Contains (Error serr) ''file already closed'' then (err, tr')
                    else (None, tr' @ [LogInfow ''successfully rebooted''])
                | None \<Rightarrow> (None, tr' @ [LogInfow ''successfully rebooted'']))))"

text \<open>
  \<open>Reboot\<close>, given the effective user id and the run of the subprocess. With a delay, the
  reboot is left to a goroutine: starting it is the event \<open>GoDelayedReboot\<close>, and what it
  does later is not part of what \<open>Reboot\<close> returns.
\<close>

definition Reboot :: "int \<Rightarrow> ProcessRun \<Rightarrow> OpOption list \<Rightarrow> error option \<times> event list" where
  "Reboot euid run opts =
     (case applyOpts \<lparr>delaySeconds = 0, useSystemctl = False\<rparr> opts of
        (options, Some err) \<Rightarrow> (Some err, [])
      | (options, None) \<Rightarrow>
          if \<not> (euid = 0) then (Some ErrNotRoot, [])
          else
            (let cmd = (if useSystemctl options then ''sudo systemctl reboot'' else ''sudo reboot'')
             in case new_err run of
                  Some err \<Rightarrow> (Some err, [ProcessNew cmd])
                | None \<Rightarrow>
                    if delaySeconds options = 0
                    then rebootFunc run cmd None [ProcessNew cmd, LogInfow ''rebooting immediately'']
                    else (None, [ProcessNew cmd, GoDelayedReboot (delaySeconds options),
                                 LogInfow ''triggering reboot after delay''])))"

text \<open>
  \<open>ListNVIDIAPCIs\<close>: besides the run of \<open>lspci\<close>, the result of \<open>file.LocateExecutable\<close>
  and what the last, blocking \<open>select\<close> receives (the exit error from \<open>Wait()\<close>, or the
  context's end with \<open>ctx.Err()\<close>).
\<close>

datatype FinalSelect = WaitReceived "error option" | CtxDone error

record LspciRun =
  locate :: "string \<times> error option"
  run :: ProcessRun
  final :: FinalSelect

fun pci_scan :: "(string \<times> error option option) list \<Rightarrow> string list \<Rightarrow> error + string list" where
  "pci_scan [] lines = Inr lines"
| "pci_scan ((line, w) # rest) lines =
     (case w of
        Some (Some err) \<Rightarrow> Inl err
      | _ \<Rightarrow> pci_scan rest (if Contains line ''NVIDIA'' then lines @ [line] else lines))"

definition pci_final :: "FinalSelect \<Rightarrow> string list \<Rightarrow> string list option \<times> error option" where
  "pci_final f lines =
     (case f of
        WaitReceived (Some err) \<Rightarrow> (None, Some err)
      | WaitReceived None \<Rightarrow> (Some lines, None)
      | CtxDone err \<Rightarrow> (None, Some err))"

definition ListNVIDIAPCIs :: "LspciRun \<Rightarrow> string list option \<times> error option" where
  "ListNVIDIAPCIs w =
     (case locate w of
        (lspciPath, Some err) \<Rightarrow> (None, None)
      | (lspciPath, None) \<Rightarrow>
          if lspciPath = [] then (None, None)
          else
            (case new_err (run w) of
               Some err \<Rightarrow> (None, Some err)
             | None \<Rightarrow>
                 (case start_err (run w) of
                    Some err \<Rightarrow> (None, Some err)
                  | None \<Rightarrow>
                      (case pci_scan (scanned (run w)) [] of
                         Inl err \<Rightarrow> (None, Some err)
                       | Inr lines \<Rightarrow>
                           (case scan_err (run w) of
                              Some serr \<Rightarrow>
                                if \<not> Contains (Error serr) ''file already closed''
                                then (None, Some serr)
                                else pci_final (final w) lines
                            | None \<Rightarrow> pci_final (final w) lines)))))"

section \<open>The names and keys of the states\<close>

lemmas StateNames =
  StateNameHost_def StateNameKernel_def StateNamePlatform_def StateNameUptimes_def
  StateNameProcessCountsByStatus_def

lemmas StateKeys =
  StateKeyHostID_def StateKeyKernelArch_def StateKeyKernelVersion_def StateKeyPlatformName_def
  StateKeyPlatformFamily_def StateKeyPlatformVersion_def StateKeyUptimesSeconds_def
  StateKeyUptimesHumanized_def StateKeyUptimesBootTimeUnixSeconds_def
  StateKeyUptimesBootTimeHumanized_def StateKeyProcessCountZombieProcesses_def

section \<open>Decimal text read back: \<open>%d\<close> against \<open>ParseUint\<close> and \<open>Atoi\<close>\<close>

lemma dec_val_append: "dec_val a (xs @ ys) = dec_val (dec_val a xs) ys"
  by (induction xs arbitrary: a) auto

lemma of_char_digit_char: "d < 10 \<Longrightarrow> (of_char (digit_char d) :: nat) = 48 + d"
  by (simp add: digit_char_def)

lemma is_digit_digit_char: "d < 10 \<Longrightarrow> is_digit (digit_char d)"
  by (simp add: is_digit_def of_char_digit_char)

lemma decimal_not_Nil: "decimal n \<noteq> []"
  by (subst decimal.simps) simp

lemma decimal_is_digit: "list_all is_digit (decimal n)"
proof (induction n rule: decimal.induct)
  case (1 n)
  show ?case
  proof (cases "n < 10")
    case True
    then show ?thesis by (subst decimal.simps) (simp add: is_digit_digit_char)
  next
    case False
    with 1 show ?thesis by (subst decimal.simps) (simp add: is_digit_digit_char)
  qed
qed

lemma dec_val_decimal: "dec_val 0 (decimal n) = n"
proof (induction n rule: decimal.induct)
  case (1 n)
  show ?case
  proof (cases "n < 10")
    case True
    then show ?thesis by (subst decimal.simps) (simp add: of_char_digit_char)
  next
    case False
    with 1 show ?thesis
      by (subst decimal.simps) (simp add: dec_val_append of_char_digit_char)
  qed
qed

lemma dec_val_mono: "a \<le> dec_val a cs"
proof (induction cs arbitrary: a)
  case Nil
  show ?case by simp
next
  case (Cons c cs)
  have "a \<le> a * 10 + (of_char c - 48)" by simp
  also have "\<dots> \<le> dec_val (a * 10 + (of_char c - 48)) cs" by (rule Cons.IH)
  finally show ?case by simp
qed

lemma ParseUint_digit_digit: "is_digit c \<Longrightarrow> ParseUint_digit c = Some (of_char c - 48)"
  by (simp add: ParseUint_digit_def is_digit_def Let_def)

lemma ParseUint_loop_digits:
  "list_all is_digit cs \<Longrightarrow> dec_val (unat n) cs < 2 ^ 64 \<Longrightarrow>
   ParseUint_loop s0 n cs = (word_of_nat (dec_val (unat n) cs), None)"
proof (induction cs arbitrary: n)
  case Nil
  show ?case by simp
next
  case (Cons c cs)
  let ?d = "(of_char c :: nat) - 48"
  let ?a = "unat n * 10 + ?d"
  from Cons.prems have c: "is_digit c" and cs: "list_all is_digit cs" by simp_all
  from c have d: "?d < 10" by (auto simp: is_digit_def)
  have "?a \<le> dec_val ?a cs" by (rule dec_val_mono)
  with Cons.prems(2) have a: "?a < 2 ^ 64" by simp
  have un10: "unat (n * 10) = unat n * 10"
    using a by (simp add: unat_word_ariths unat_of_nat)
  have und: "unat (word_of_nat ?d :: uint64) = ?d"
    using d by (simp add: unat_of_nat)
  have un1: "unat (n * 10 + word_of_nat ?d) = ?a"
    using a un10 und by (simp add: unat_word_ariths)
  have nocut: "\<not> ParseUint_cutoff \<le> n"
    using a by (simp add: word_le_nat_alt ParseUint_cutoff_def)
  have noovf: "\<not> n * 10 + word_of_nat ?d < n * 10"
    by (simp add: word_less_nat_alt un1 un10)
  have nomax: "\<not> maxVal64 < n * 10 + word_of_nat ?d"
    by (simp add: maxVal64_def)
  have IH: "ParseUint_loop s0 (n * 10 + word_of_nat ?d) cs
              = (word_of_nat (dec_val ?a cs), None)"
    using Cons.IH[of "n * 10 + word_of_nat ?d"] cs Cons.prems(2) by (simp add: un1)
  show ?case
    using d nocut noovf nomax IH by (simp add: ParseUint_digit_digit[OF c] Let_def)
qed

lemma ParseUint_decimal:
  assumes "n < 2 ^ 64"
  shows "ParseUint (decimal n) = (word_of_nat n, None)"
proof -
  have "ParseUint_loop (decimal n) 0 (decimal n) = (word_of_nat (dec_val (unat (0::uint64)) (decimal n)), None)"
    using assms by (intro ParseUint_loop_digits) (simp_all add: decimal_is_digit dec_val_decimal)
  then show ?thesis by (simp add: ParseUint_def decimal_not_Nil dec_val_decimal)
qed

lemma ParseUint_Sprintf: "ParseUint (Sprintf_d_uint64 u) = (u, None)"
  using ParseUint_decimal[of "unat u"] unsigned_less[of u, where ?'a = nat]
  by (simp add: Sprintf_d_uint64_def)


lemma byte_sub_48: "48 \<le> (x::nat) \<Longrightarrow> x \<le> 57 \<Longrightarrow> (x + 256 - 48) mod 256 = x - 48"
proof -
  assume a: "48 \<le> x" "x \<le> 57"
  then have "x + 256 - 48 = (x - 48) + 256" by simp
  then have "(x + 256 - 48) mod 256 = (x - 48) mod 256" by (simp only: mod_add_self2)
  also have "\<dots> = x - 48" using a by simp
  finally show ?thesis .
qed

lemma Atoi_loop_digits:
  "list_all is_digit cs \<Longrightarrow> Atoi_loop s0 (word_of_nat a) cs = (word_of_nat (dec_val a cs), None)"
proof (induction cs arbitrary: a)
  case Nil
  show ?case by simp
next
  case (Cons c cs)
  from Cons.prems have c: "is_digit c" and cs: "list_all is_digit cs" by simp_all
  from c have d: "((of_char c :: nat) + 256 - 48) mod 256 = of_char c - 48"
    by (intro byte_sub_48) (simp_all add: is_digit_def)
  from c have d9: "\<not> 9 < (of_char c :: nat) - 48" by (auto simp: is_digit_def)
  have "Atoi_loop s0 (word_of_nat a) (c # cs)
          = Atoi_loop s0 (word_of_nat a * 10 + word_of_nat (of_char c - 48)) cs"
    using d9 by (simp only: Atoi_loop.simps d Let_def if_False)
  also have "\<dots> = Atoi_loop s0 (word_of_nat (a * 10 + (of_char c - 48))) cs"
    by simp
  also have "\<dots> = (word_of_nat (dec_val (a * 10 + (of_char c - 48)) cs), None)"
    by (rule Cons.IH[OF cs])
  finally show ?case by simp
qed

lemma mod_neg_shift: "- m \<le> (x::int) \<Longrightarrow> x < 0 \<Longrightarrow> x mod m = x + m"
proof -
  assume a: "- m \<le> x" "x < 0"
  have "(x + m) mod m = x + m" using a by (intro mod_pos_pos_trivial) simp_all
  moreover have "(x + m) mod m = x mod m" by simp
  ultimately show ?thesis by simp
qed

lemma uint_of_sint:
  "uint (i :: goint) = (if 0 \<le> sint i then sint i else sint i + 2 ^ 64)"
proof -
  have u: "uint i = sint i mod 2 ^ 64"
    using uint_sint[of i] by (simp add: take_bit_eq_mod)
  have lo: "- (2 ^ 63) \<le> sint i" using sint_ge[of i] by simp
  have hi: "sint i < 2 ^ 63" using sint_lt[of i] by simp
  show ?thesis
  proof (cases "0 \<le> sint i")
    case True
    with hi have "sint i mod 2 ^ 64 = sint i" by (intro mod_pos_pos_trivial) simp_all
    with True u show ?thesis by simp
  next
    case False
    have "sint i mod 2 ^ 64 = sint i + 2 ^ 64"
      using lo False by (intro mod_neg_shift) simp_all
    then show ?thesis using False u by simp
  qed
qed


lemma sint_nonneg_below_cutoff: "0 \<le> sint (i :: goint) \<Longrightarrow> \<not> ParseInt_cutoff \<le> i"
  using sint_lt[of i] by (simp add: word_le_def ParseInt_cutoff_def uint_of_sint)

lemma mod_neg_flip: "0 < (x::int) \<Longrightarrow> x \<le> m \<Longrightarrow> (- x) mod m = m - x"
  using mod_neg_shift[of m "- x"] by simp

lemma uint_minus_of_sint_neg:
  assumes "sint (i :: goint) < 0"
  shows "uint (- i) = - sint i"
proof -
  have lo: "- (2 ^ 63) \<le> sint i" using sint_ge[of i] by simp
  have ui: "uint i = sint i + 2 ^ 64" using assms by (simp add: uint_of_sint)
  have pos: "0 < uint i" using lo ui by simp
  have le: "uint i \<le> 2 ^ 64" using assms ui by simp
  have "uint (- i) = (- uint i) mod 2 ^ 64" by (simp add: uint_word_ariths)
  also have "\<dots> = 2 ^ 64 - uint i" using pos le by (rule mod_neg_flip)
  also have "\<dots> = - sint i" using ui by simp
  finally show ?thesis .
qed

lemma sint_neg_minus_cutoff: "sint (i :: goint) < 0 \<Longrightarrow> \<not> ParseInt_cutoff < - i"
  using sint_ge[of i] by (simp add: word_less_def ParseInt_cutoff_def uint_minus_of_sint_neg)

lemma hd_decimal: "is_digit (hd (decimal n))"
  using decimal_is_digit[of n] decimal_not_Nil[of n] by (cases "decimal n") simp_all


lemma is_digit_not_sign: "is_digit c \<Longrightarrow> c \<noteq> CHR ''-'' \<and> c \<noteq> CHR ''+''"
  by (auto simp: is_digit_def)

lemma Atoi_loop_decimal: "Atoi_loop s0 0 (decimal n) = (word_of_nat n, None)"
  using Atoi_loop_digits[OF decimal_is_digit, of s0 0 n] by (simp add: dec_val_decimal)

lemma ParseInt_decimal_nonneg:
  assumes "0 \<le> sint (i :: goint)"
  shows "ParseInt (decimal (unat i)) = (i, None)"
proof -
  obtain c r where cr: "decimal (unat i) = c # r"
    using decimal_not_Nil[of "unat i"] by (cases "decimal (unat i)") auto
  have c: "c \<noteq> CHR ''-'' \<and> c \<noteq> CHR ''+''"
    using hd_decimal[of "unat i"] cr by (simp add: is_digit_not_sign)
  have pu: "ParseUint (c # r) = (i, None)"
    using ParseUint_decimal[of "unat i"] unsigned_less[of i, where ?'a = nat] cr by simp
  have "ParseInt (c # r) = ParseInt_range (c # r) False i"
    using c pu by (simp add: ParseInt_def)
  also have "\<dots> = (i, None)"
    using sint_nonneg_below_cutoff[OF assms] by (simp add: ParseInt_range_def)
  finally show ?thesis by (simp add: cr)
qed

lemma ParseInt_decimal_neg:
  assumes "sint (i :: goint) < 0"
  shows "ParseInt (CHR ''-'' # decimal (unat (- i))) = (i, None)"
proof -
  have pu: "ParseUint (decimal (unat (- i))) = (- i, None)"
    using ParseUint_decimal[of "unat (- i)"] unsigned_less[of "- i", where ?'a = nat] by simp
  have "ParseInt (CHR ''-'' # decimal (unat (- i)))
          = ParseInt_range (CHR ''-'' # decimal (unat (- i))) True (- i)"
    using pu by (simp add: ParseInt_def)
  also have "\<dots> = (i, None)"
    using sint_neg_minus_cutoff[OF assms] by (simp add: ParseInt_range_def)
  finally show ?thesis .
qed

lemma Atoi_Sprintf: "Atoi (Sprintf_d_int i) = (i, None)"
proof (cases "sint i < 0")
  case True
  let ?s = "decimal (unat (- i))"
  have len: "0 < length ?s" using decimal_not_Nil[of "unat (- i)"] by simp
  show ?thesis
  proof (cases "length (CHR ''-'' # ?s) < 19")
    case short: True
    then show ?thesis
      using True len by (simp add: Sprintf_d_int_def Atoi_def Atoi_loop_decimal)
  next
    case False
    then show ?thesis
      using True ParseInt_decimal_neg[OF True] by (simp add: Sprintf_d_int_def Atoi_def)
  qed
next
  case False
  let ?s = "decimal (unat i)"
  have len: "0 < length ?s" using decimal_not_Nil[of "unat i"] by simp
  have hd: "hd ?s \<noteq> CHR ''-'' \<and> hd ?s \<noteq> CHR ''+''"
    using hd_decimal[of "unat i"] by (simp add: is_digit_not_sign)
  show ?thesis
  proof (cases "length ?s < 19")
    case True
    then show ?thesis
      using False len hd by (simp add: Sprintf_d_int_def Atoi_def Atoi_loop_decimal)
  next
    case long: False
    have "0 \<le> sint i" using False by simp
    then show ?thesis
      using False long len ParseInt_decimal_nonneg by (simp add: Sprintf_d_int_def Atoi_def)
  qed
qed

section \<open>Flattening an Output to states and parsing it back\<close>

lemma States_ParseStatesToOutput_roundtrip: "ParseStatesToOutput (fst (States thr o')) = Inr o'"
proof -
  obtain h k p u z where o: "o' = \<lparr>Host = h, Kernel = k, Platform = p, Uptimes = u, ProcessCountZombieProcesses = z\<rparr>"
    by (cases o') auto
  obtain hid where h: "h = \<lparr>ID = hid\<rparr>" by (cases h) auto
  obtain ka kv where k: "k = \<lparr>Arch = ka, Kernel_Version = kv\<rparr>" by (cases k) auto
  obtain pn pf pv where p: "p = \<lparr>Platform_Name = pn, Family = pf, Platform_Version = pv\<rparr>" by (cases p) auto
  obtain us uh ub ubh where u: "u = \<lparr>Seconds = us, SecondsHumanized = uh, BootTimeUnixSeconds = ub, BootTimeHumanized = ubh\<rparr>" by (cases u) auto
  show ?thesis
    unfolding o h k p u
    by (simp add: States_def ParseStatesToOutput_def StateNames StateKeys zeroOutput_def zeroUptimes_def
        ParseStateHost_def ParseStateKernel_def ParseStatePlatform_def ParseStateUptimes_def
        ParseStateProcessCountZombieProcesses_def index_def ParseUint_Sprintf Atoi_Sprintf Let_def)
qed


section \<open>JSON: an Output marshalled and unmarshalled\<close>

subsection \<open>UTF-8: a decoded rune encodes to the bytes it was decoded from\<close>

lemma div_base: "x < m \<Longrightarrow> (q * m + x) div m = (q::nat)"
  by simp

lemma mod_base: "x < m \<Longrightarrow> (q * m + x) mod m = (x::nat)"
  by simp

lemma enc2:
  assumes "0xC2 \<le> s0" "s0 < 0xE0" "0x80 \<le> s1" "s1 \<le> (0xBF::nat)"
  shows "EncodeRune ((s0 mod 32) * 64 + s1 mod 64) = [char_of s0, char_of s1]"
proof -
  define a where "a = s0 - 192"
  define b where "b = s1 - 128"
  have s0: "s0 = 6 * 32 + a" and a: "2 \<le> a" "a < 32" using assms by (simp_all add: a_def)
  have s1: "s1 = 2 * 64 + b" and b: "b < 64" using assms by (simp_all add: b_def)
  have m0: "s0 mod 32 = a" unfolding s0 using a(2) by (rule mod_base)
  have m1: "s1 mod 64 = b" unfolding s1 using b by (rule mod_base)
  define r where "r = a * 64 + b"
  have d: "r div 64 = a" unfolding r_def using b by (rule div_base)
  have m: "r mod 64 = b" unfolding r_def using b by (rule mod_base)
  have lo: "\<not> r \<le> 127" using a by (simp add: r_def)
  have hi: "r \<le> 2047" using a b by (simp add: r_def)
  have e: "EncodeRune r = [char_of s0, char_of s1]"
    using lo hi by (simp add: EncodeRune_def d m s0 s1)
  have "(s0 mod 32) * 64 + s1 mod 64 = r" by (simp only: m0 m1 r_def)
  then show ?thesis by (simp only: e)
qed

lemma enc3:
  assumes "0xE0 \<le> s0" "s0 < 0xF0"
    and "(if s0 = 0xE0 then 0xA0 else 0x80) \<le> s1" "s1 \<le> (if s0 = 0xED then 0x9F else (0xBF::nat))"
    and "0x80 \<le> s2" "s2 \<le> (0xBF::nat)"
  shows "EncodeRune ((s0 mod 16) * 4096 + (s1 mod 64) * 64 + s2 mod 64)
           = [char_of s0, char_of s1, char_of s2]"
proof -
  define a where "a = s0 - 224"
  define b where "b = s1 - 128"
  define c where "c = s2 - 128"
  have s1lo: "128 \<le> s1" using assms(3) by (simp split: if_splits)
  have s1hi: "s1 \<le> 191" using assms(4) by (simp split: if_splits)
  have s0: "s0 = 14 * 16 + a" and a: "a < 16" using assms by (simp_all add: a_def)
  have s1: "s1 = 2 * 64 + b" and b: "b < 64" using s1lo s1hi by (simp_all add: b_def)
  have s2: "s2 = 2 * 64 + c" and c: "c < 64" using assms by (simp_all add: c_def)
  have b0: "a = 0 \<Longrightarrow> 32 \<le> b" using assms(3) by (simp add: s0 s1 split: if_splits)
  have b13: "a = 13 \<Longrightarrow> b < 32" using assms(4) by (simp add: s0 s1 split: if_splits)
  have m0: "s0 mod 16 = a" unfolding s0 using a by (rule mod_base)
  have m1: "s1 mod 64 = b" unfolding s1 using b by (rule mod_base)
  have m2: "s2 mod 64 = c" unfolding s2 using c by (rule mod_base)
  define r where "r = a * 4096 + b * 64 + c"
  have bc: "b * 64 + c < 4096" using b c by simp
  have r1: "r = a * 4096 + (b * 64 + c)" by (simp add: r_def)
  have r2: "r = (a * 64 + b) * 64 + c" by (simp add: r_def)
  have d1: "r div 4096 = a" unfolding r1 using bc by (rule div_base)
  have "r div 64 = a * 64 + b" unfolding r2 using c by (rule div_base)
  then have d2: "(r div 64) mod 64 = b" using b by (simp only: mod_base)
  have d3: "r mod 64 = c" unfolding r2 using c by (rule mod_base)
  have lo: "\<not> r \<le> 2047" using b0 unfolding r_def by (cases "a = 0") simp_all
  have "\<not> (55296 \<le> r \<and> r \<le> 57343)"
  proof (cases "a = 13")
    case True
    then show ?thesis using b13 c unfolding r_def by simp
  next
    case False
    then have "a \<le> 12 \<or> 14 \<le> a" by arith
    then show ?thesis using b c unfolding r_def by auto
  qed
  then have ns: "(55296 \<le> r \<and> r \<le> 57343) = False" by simp
  have hi: "r \<le> 65535" using a b c unfolding r_def by simp
  have e: "EncodeRune r = [char_of s0, char_of s1, char_of s2]"
    using lo hi by (simp add: EncodeRune_def d1 d2 d3 s0 s1 s2 ns)
  have "(s0 mod 16) * 4096 + (s1 mod 64) * 64 + s2 mod 64 = r" by (simp only: m0 m1 m2 r_def)
  then show ?thesis by (simp only: e)
qed

lemma enc4:
  assumes "0xF0 \<le> s0" "s0 < 0xF5"
    and "(if s0 = 0xF0 then 0x90 else 0x80) \<le> s1" "s1 \<le> (if s0 = 0xF4 then 0x8F else (0xBF::nat))"
    and "0x80 \<le> s2" "s2 \<le> (0xBF::nat)" "0x80 \<le> s3" "s3 \<le> (0xBF::nat)"
  shows "EncodeRune ((s0 mod 8) * 262144 + (s1 mod 64) * 4096 + (s2 mod 64) * 64 + s3 mod 64)
           = [char_of s0, char_of s1, char_of s2, char_of s3]"
proof -
  define a where "a = s0 - 240"
  define b where "b = s1 - 128"
  define c where "c = s2 - 128"
  define d where "d = s3 - 128"
  have s1lo: "128 \<le> s1" using assms(3) by (simp split: if_splits)
  have s1hi: "s1 \<le> 191" using assms(4) by (simp split: if_splits)
  have s0: "s0 = 30 * 8 + a" and a: "a < 5" using assms by (simp_all add: a_def)
  have s1: "s1 = 2 * 64 + b" and b: "b < 64" using s1lo s1hi by (simp_all add: b_def)
  have s2: "s2 = 2 * 64 + c" and c: "c < 64" using assms by (simp_all add: c_def)
  have s3: "s3 = 2 * 64 + d" and d: "d < 64" using assms by (simp_all add: d_def)
  have b0: "a = 0 \<Longrightarrow> 16 \<le> b" using assms(3) by (simp add: s0 s1 split: if_splits)
  have b4: "a = 4 \<Longrightarrow> b < 16" using assms(4) by (simp add: s0 s1 split: if_splits)
  have a8: "a < 8" using a by simp
  have m0: "s0 mod 8 = a" unfolding s0 using a8 by (rule mod_base)
  have m1: "s1 mod 64 = b" unfolding s1 using b by (rule mod_base)
  have m2: "s2 mod 64 = c" unfolding s2 using c by (rule mod_base)
  have m3: "s3 mod 64 = d" unfolding s3 using d by (rule mod_base)
  define r where "r = a * 262144 + b * 4096 + c * 64 + d"
  have bcd: "b * 4096 + c * 64 + d < 262144" using b c d by simp
  have r1: "r = a * 262144 + (b * 4096 + c * 64 + d)" by (simp add: r_def)
  have r2: "r = (a * 64 + b) * 4096 + (c * 64 + d)" by (simp add: r_def)
  have r3: "r = ((a * 64 + b) * 64 + c) * 64 + d" by (simp add: r_def)
  have cd: "c * 64 + d < 4096" using c d by simp
  have d1: "r div 262144 = a" unfolding r1 using bcd by (rule div_base)
  have "r div 4096 = a * 64 + b" unfolding r2 using cd by (rule div_base)
  then have d2: "(r div 4096) mod 64 = b" using b by (simp only: mod_base)
  have "r div 64 = (a * 64 + b) * 64 + c" unfolding r3 using d by (rule div_base)
  then have d3: "(r div 64) mod 64 = c" using c by (simp only: mod_base)
  have d4: "r mod 64 = d" unfolding r3 using d by (rule mod_base)
  have lo: "\<not> r \<le> 65535" using b0 unfolding r_def by (cases "a = 0") simp_all
  have hi: "\<not> 1114111 < r"
  proof (cases "a = 4")
    case True
    then show ?thesis using b4 c d unfolding r_def by simp
  next
    case False
    then have "a \<le> 3" using a by simp
    then show ?thesis using b c d unfolding r_def by simp
  qed
  have e: "EncodeRune r = [char_of s0, char_of s1, char_of s2, char_of s3]"
    using lo hi by (simp add: EncodeRune_def d1 d2 d3 d4 s0 s1 s2 s3)
  have "(s0 mod 8) * 262144 + (s1 mod 64) * 4096 + (s2 mod 64) * 64 + s3 mod 64 = r"
    by (simp only: m0 m1 m2 m3 r_def)
  then show ?thesis by (simp only: e)
qed


lemma DecodeRune_ascii: "of_char c0 < (0x80::nat) \<Longrightarrow> DecodeRune (c0 # t) = (of_char c0, 1)"
  by (simp add: Let_def)

lemma DecodeRune_xx:
  "(0x80::nat) \<le> of_char c0 \<Longrightarrow> of_char c0 < (0xC2::nat) \<or> (0xF5::nat) \<le> of_char c0 \<Longrightarrow>
   DecodeRune (c0 # t) = (RuneError, 1)"
  by (auto simp add: Let_def)

lemma DecodeRune_short:
  "(0xC2::nat) \<le> of_char c0 \<Longrightarrow> DecodeRune [c0] = (RuneError, 1)"
  "(0xE0::nat) \<le> of_char c0 \<Longrightarrow> DecodeRune [c0, c1] = (RuneError, 1)"
  "(0xF0::nat) \<le> of_char c0 \<Longrightarrow> DecodeRune [c0, c1, c2] = (RuneError, 1)"
  by (auto simp add: Let_def)

lemma DecodeRune_2:
  assumes "(0xC2::nat) \<le> of_char c0" "of_char c0 < (0xE0::nat)"
  shows "DecodeRune (c0 # c1 # t) =
           (if of_char c1 < (0x80::nat) \<or> (0xBF::nat) < of_char c1 then (RuneError, 1)
            else ((of_char c0 mod 32) * 64 + of_char c1 mod 64, 2))"
  using assms by (simp add: Let_def)

lemma DecodeRune_3:
  assumes "(0xE0::nat) \<le> of_char c0" "of_char c0 < (0xF0::nat)"
  shows "DecodeRune (c0 # c1 # c2 # t) =
           (if of_char c1 < (if of_char c0 = (0xE0::nat) then 0xA0 else (0x80::nat))
               \<or> (if of_char c0 = (0xED::nat) then 0x9F else (0xBF::nat)) < of_char c1
            then (RuneError, 1)
            else if of_char c2 < (0x80::nat) \<or> (0xBF::nat) < of_char c2 then (RuneError, 1)
            else ((of_char c0 mod 16) * 4096 + (of_char c1 mod 64) * 64 + of_char c2 mod 64, 3))"
  using assms by (simp add: Let_def)

lemma DecodeRune_4:
  assumes "(0xF0::nat) \<le> of_char c0" "of_char c0 < (0xF5::nat)"
  shows "DecodeRune (c0 # c1 # c2 # c3 # t) =
           (if of_char c1 < (if of_char c0 = (0xF0::nat) then 0x90 else (0x80::nat))
               \<or> (if of_char c0 = (0xF4::nat) then 0x8F else (0xBF::nat)) < of_char c1
            then (RuneError, 1)
            else if of_char c2 < (0x80::nat) \<or> (0xBF::nat) < of_char c2 then (RuneError, 1)
            else if of_char c3 < (0x80::nat) \<or> (0xBF::nat) < of_char c3 then (RuneError, 1)
            else ((of_char c0 mod 8) * 262144 + (of_char c1 mod 64) * 4096
                  + (of_char c2 mod 64) * 64 + of_char c3 mod 64, 4))"
  using assms by (simp add: Let_def)


lemma DecodeRune_multi:
  assumes dec: "DecodeRune s = (r, n)" and n2: "2 \<le> n"
  shows "n \<le> length s \<and> n \<le> 4 \<and> EncodeRune r = take n s
         \<and> (\<forall>t. DecodeRune (take n s @ t) = (r, n))
         \<and> (\<forall>c \<in> set (take n s). (0x80::nat) \<le> of_char c)"
proof -
  obtain c0 t0 where s: "s = c0 # t0"
    using dec n2 by (cases s) auto
  let ?s0 = "of_char c0 :: nat"
  have hi: "(0x80::nat) \<le> ?s0"
    using dec n2 DecodeRune_ascii[of c0 t0] unfolding s by (cases "?s0 < 0x80") auto
  have nxx: "(0xC2::nat) \<le> ?s0" "?s0 < (0xF5::nat)"
    using dec n2 hi DecodeRune_xx[of c0 t0] unfolding s by (cases "?s0 < 0xC2"; cases "0xF5 \<le> ?s0"; auto)+
  consider (two) "?s0 < 0xE0" | (three) "0xE0 \<le> ?s0" "?s0 < 0xF0" | (four) "0xF0 \<le> ?s0"
    by linarith
  then show ?thesis
  proof cases
    case two
    obtain c1 t1 where t0: "t0 = c1 # t1"
      using dec n2 DecodeRune_short(1)[OF nxx(1)] unfolding s by (cases t0) auto
    note D = DecodeRune_2[OF nxx(1) two]
    have c1: "(0x80::nat) \<le> of_char c1" "of_char c1 \<le> (0xBF::nat)"
      and r: "r = (?s0 mod 32) * 64 + of_char c1 mod 64" and n: "n = 2"
      using dec n2 unfolding s t0 D by (auto split: if_splits)
    have e: "EncodeRune r = [c0, c1]"
      unfolding r using enc2[OF nxx(1) two c1] by simp
    have loc: "\<And>t. DecodeRune (c0 # c1 # t) = (r, n)"
      unfolding D r n using c1 by auto
    show ?thesis using e loc hi c1 by (simp add: s t0 n)
  next
    case three
    obtain c1 c2 t2 where t0: "t0 = c1 # c2 # t2"
    proof (cases t0)
      case Nil
      then show ?thesis using dec n2 DecodeRune_short(1)[OF nxx(1)] unfolding s by auto
    next
      case (Cons c1 t1)
      then show ?thesis
        using that dec n2 DecodeRune_short(2)[OF three(1), of c1] unfolding s by (cases t1) auto
    qed
    note D = DecodeRune_3[OF three]
    have c1: "(if ?s0 = 0xE0 then 0xA0 else 0x80) \<le> (of_char c1 :: nat)"
             "(of_char c1 :: nat) \<le> (if ?s0 = 0xED then 0x9F else 0xBF)"
      and c1': "(0x80::nat) \<le> of_char c1"
      and c2: "(0x80::nat) \<le> of_char c2" "of_char c2 \<le> (0xBF::nat)"
      and r: "r = (?s0 mod 16) * 4096 + (of_char c1 mod 64) * 64 + of_char c2 mod 64" and n: "n = 3"
      using dec n2 unfolding s t0 D by (auto split: if_splits)
    have e: "EncodeRune r = [c0, c1, c2]"
      unfolding r using enc3[OF three c1 c2] by simp
    have loc: "\<And>t. DecodeRune (c0 # c1 # c2 # t) = (r, n)"
      unfolding D r n using c1 c2 by auto
    show ?thesis using e loc hi c1' c2 by (simp add: s t0 n)
  next
    case four
    obtain c1 c2 c3 t3 where t0: "t0 = c1 # c2 # c3 # t3"
    proof (cases t0)
      case Nil
      then show ?thesis using dec n2 DecodeRune_short(1)[OF nxx(1)] unfolding s by auto
    next
      case (Cons c1 t1)
      show ?thesis
      proof (cases t1)
        case Nil
        have "(0xE0::nat) \<le> ?s0" using four by simp
        then show ?thesis
          using dec n2 DecodeRune_short(2)[of c0 c1] unfolding s Cons Nil by auto
      next
        case (Cons c2 t2)
        then show ?thesis
          using that dec n2 DecodeRune_short(3)[OF four, of c1 c2] unfolding s \<open>t0 = c1 # t1\<close>
          by (cases t2) auto
      qed
    qed
    note D = DecodeRune_4[OF four nxx(2)]
    have c1: "(if ?s0 = 0xF0 then 0x90 else 0x80) \<le> (of_char c1 :: nat)"
             "(of_char c1 :: nat) \<le> (if ?s0 = 0xF4 then 0x8F else 0xBF)"
      and c1': "(0x80::nat) \<le> of_char c1"
      and c2: "(0x80::nat) \<le> of_char c2" "of_char c2 \<le> (0xBF::nat)"
      and c3: "(0x80::nat) \<le> of_char c3" "of_char c3 \<le> (0xBF::nat)"
      and r: "r = (?s0 mod 8) * 262144 + (of_char c1 mod 64) * 4096
                  + (of_char c2 mod 64) * 64 + of_char c3 mod 64" and n: "n = 4"
      using dec n2 unfolding s t0 D by (auto split: if_splits)
    have e: "EncodeRune r = [c0, c1, c2, c3]"
      unfolding r using enc4[OF four nxx(2) c1 c2 c3] by simp
    have loc: "\<And>t. DecodeRune (c0 # c1 # c2 # c3 # t) = (r, n)"
      unfolding D r n using c1 c2 c3 by auto
    show ?thesis using e loc hi c1' c2 c3 by (simp add: s t0 n)
  qed
qed

lemma DecodeRune_size: "DecodeRune (c # s) = (r, n) \<Longrightarrow> 1 \<le> n \<and> n \<le> 4"
  by (auto simp: Let_def split: if_splits)


lemma DecodeRune_high_single:
  "(0x80::nat) \<le> of_char c \<Longrightarrow> DecodeRune (c # s) = (r, 1) \<Longrightarrow> r = RuneError"
  by (auto simp: Let_def split: if_splits)


lemma DecodeRune_Nil: "DecodeRune [] = (RuneError, 0)"
  by simp

declare DecodeRune.simps [simp del]

subsection \<open>A quoted string is scanned and unquoted to the coerced string\<close>

lemma hex_all:
  "\<forall>n \<in> set [0..<16]. hexval (hex n) = Some n \<and> is_hex (hex n)
      \<and> hex n \<noteq> dq \<and> hex n \<noteq> bs \<and> 0x20 \<le> (of_char (hex n) :: nat)"
  by (simp add: upt_rec hex_def hexval_def is_hex_def dq_def bs_def)

lemma hexval_hex: "n < 16 \<Longrightarrow> hexval (hex n) = Some n"
  using hex_all by simp

lemma is_hex_hex: "n < 16 \<Longrightarrow> is_hex (hex n)"
  using hex_all by simp

lemma scan_string_high:
  "\<forall>c \<in> set xs. (0x80::nat) \<le> of_char c \<Longrightarrow> scan_string acc (xs @ t) = scan_string (acc @ xs) t"
proof (induction xs arbitrary: acc)
  case Nil
  show ?case by simp
next
  case (Cons x xs)
  have x: "(0x80::nat) \<le> of_char x" using Cons.prems by simp
  have "x \<noteq> dq" "x \<noteq> bs" using x by (auto simp: dq_def bs_def)
  moreover have "\<not> (of_char x :: nat) < 0x20" using x by simp
  ultimately have "scan_string acc ((x # xs) @ t) = scan_string (acc @ [x]) (xs @ t)" by simp
  also have "\<dots> = scan_string ((acc @ [x]) @ xs) t" using Cons.prems by (intro Cons.IH) simp
  finally show ?case by simp
qed


lemma scan_string_escape:
  assumes "(of_char c :: nat) < 0x80"
  shows "scan_string acc (escape c @ t) = scan_string (acc @ escape c) t"
proof -
  have "of_char c div 16 < (16::nat)" "of_char c mod 16 < (16::nat)" using assms by simp_all
  then have "is_hex (hex (of_char c div 16))" "is_hex (hex (of_char c mod 16))"
    by (simp_all add: is_hex_hex)
  moreover have "is_hex (CHR ''0'')" by (simp add: is_hex_def)
  ultimately show ?thesis by (simp add: escape_def bs_def dq_def)
qed

lemma scan_string_plain:
  "htmlSafe c \<Longrightarrow> scan_string acc (c # t) = scan_string (acc @ [c]) t"
  by (simp add: htmlSafe_def)

lemma scan_string_quote_body:
  "scan_string acc (quote_body s @ dq # rest) = Some (acc @ quote_body s, rest)"
proof (induction s arbitrary: acc rule: quote_body.induct)
  case 1
  show ?case by simp
next
  case (2 c s)
  show ?case
  proof (cases "(of_char c :: nat) < 0x80")
    case True
    show ?thesis
    proof (cases "htmlSafe c")
      case safe: True
      have "scan_string acc (quote_body (c # s) @ dq # rest)
              = scan_string (acc @ [c]) (quote_body s @ dq # rest)"
        using True safe by (simp add: scan_string_plain del: scan_string.simps)
      also have "\<dots> = Some ((acc @ [c]) @ quote_body s, rest)"
        using True by (intro "2.IH"(1))
      finally show ?thesis using True safe by simp
    next
      case False
      have "scan_string acc (quote_body (c # s) @ dq # rest)
              = scan_string (acc @ escape c) (quote_body s @ dq # rest)"
        using True False by (simp add: scan_string_escape del: scan_string.simps)
      also have "\<dots> = Some ((acc @ escape c) @ quote_body s, rest)"
        using True by (intro "2.IH"(1))
      finally show ?thesis using True False by simp
    qed
  next
    case False
    obtain r sz where d: "DecodeRune (c # s) = (r, sz)" by (cases "DecodeRune (c # s)") auto
    have hi: "(0x80::nat) \<le> of_char c" using False by simp
    consider (bad) "r = RuneError \<and> sz = 1" | (sep) "\<not> (r = RuneError \<and> sz = 1)" "r = 0x2028 \<or> r = 0x2029"
      | (raw) "\<not> (r = RuneError \<and> sz = 1)" "\<not> (r = 0x2028 \<or> r = 0x2029)" by blast
    then show ?thesis
    proof cases
      case bad
      let ?e = "[bs, CHR ''u'', CHR ''f'', CHR ''f'', CHR ''f'', CHR ''d'']"
      have q: "quote_body (c # s) = ?e @ quote_body s" using False d bad by simp
      have "scan_string acc (?e @ quote_body s @ dq # rest)
              = scan_string (acc @ ?e) (quote_body s @ dq # rest)"
        by (simp add: bs_def dq_def is_hex_def)
      also have "\<dots> = Some ((acc @ ?e) @ quote_body s, rest)"
        using False d bad by (intro "2.IH"(2)) auto
      finally show ?thesis unfolding q by simp
    next
      case sep
      let ?e = "[bs, CHR ''u'', CHR ''2'', CHR ''0'', CHR ''2'', hex (r mod 16)]"
      have q: "quote_body (c # s) = ?e @ quote_body (drop (sz - 1) s)" using False d sep by simp
      have "is_hex (hex (r mod 16))" by (simp add: is_hex_hex)
      then have "scan_string acc (?e @ quote_body (drop (sz - 1) s) @ dq # rest)
              = scan_string (acc @ ?e) (quote_body (drop (sz - 1) s) @ dq # rest)"
        by (simp add: bs_def dq_def is_hex_def)
      also have "\<dots> = Some ((acc @ ?e) @ quote_body (drop (sz - 1) s), rest)"
        using False d sep by (intro "2.IH"(3)) auto
      finally show ?thesis unfolding q by simp
    next
      case raw
      have sz2: "2 \<le> sz"
        using DecodeRune_size[OF d] DecodeRune_high_single[OF hi, of s r] d raw(1)
        by (cases "sz = 1") auto
      note M = DecodeRune_multi[OF d sz2]
      have q: "quote_body (c # s) = take sz (c # s) @ quote_body (drop (sz - 1) s)"
        using False d raw by simp
      have "scan_string acc (take sz (c # s) @ quote_body (drop (sz - 1) s) @ dq # rest)
              = scan_string (acc @ take sz (c # s)) (quote_body (drop (sz - 1) s) @ dq # rest)"
        using M by (intro scan_string_high) blast
      also have "\<dots> = Some ((acc @ take sz (c # s)) @ quote_body (drop (sz - 1) s), rest)"
        using False d raw by (intro "2.IH"(4)) auto
      finally show ?thesis unfolding q by simp
    qed
  qed
qed

lemma unquote_plain:
  "htmlSafe c \<Longrightarrow> (of_char c :: nat) < 0x80 \<Longrightarrow>
   unquote_loop (c # t) = map_option ((#) c) (unquote_loop t)"
  by (simp add: htmlSafe_def)

lemma getu4_00:
  assumes "(of_char c :: nat) < 0x80"
  shows "getu4 (bs # CHR ''u'' # CHR ''0'' # CHR ''0'' # hex (of_char c div 16) # hex (of_char c mod 16) # t)
           = Some (of_char c)"
proof -
  have "of_char c div 16 < (16::nat)" "of_char c mod 16 < (16::nat)" using assms by simp_all
  then have "hexval (hex (of_char c div 16)) = Some (of_char c div 16)"
            "hexval (hex (of_char c mod 16)) = Some (of_char c mod 16)"
    by (simp_all add: hexval_hex)
  moreover have "hexval (CHR ''0'') = Some 0" by (simp add: hexval_def)
  ultimately show ?thesis by (simp add: getu4_def)
qed

lemma EncodeRune_ascii: "(of_char c :: nat) < 0x80 \<Longrightarrow> EncodeRune (of_char c) = [c]"
  by (simp add: EncodeRune_def)

lemma bs_neq: "bs \<noteq> dq" "CHR ''u'' \<noteq> dq" "CHR ''u'' \<noteq> bs" "\<not> (of_char bs :: nat) < 0x20"
  by (simp_all add: bs_def dq_def)

lemma unquote_u:
  assumes "getu4 (bs # CHR ''u'' # h1 # h2 # h3 # h4 # t) = Some rr" and "\<not> IsSurrogate rr"
  shows "unquote_loop (bs # CHR ''u'' # h1 # h2 # h3 # h4 # t)
           = map_option ((@) (EncodeRune rr)) (unquote_loop t)"
proof -
  have "unquote_loop (bs # CHR ''u'' # h1 # h2 # h3 # h4 # t)
          = (case getu4 (bs # CHR ''u'' # h1 # h2 # h3 # h4 # t) of
               None \<Rightarrow> None
             | Some rr \<Rightarrow>
                 if IsSurrogate rr then
                   (if utf16_DecodeRune rr (getu4 (drop 4 (h1 # h2 # h3 # h4 # t))) \<noteq> RuneError
                    then map_option ((@) (EncodeRune (utf16_DecodeRune rr (getu4 (drop 4 (h1 # h2 # h3 # h4 # t))))))
                           (unquote_loop (drop 10 (h1 # h2 # h3 # h4 # t)))
                    else map_option ((@) (EncodeRune RuneError)) (unquote_loop (drop 4 (h1 # h2 # h3 # h4 # t))))
                 else map_option ((@) (EncodeRune rr)) (unquote_loop (drop 4 (h1 # h2 # h3 # h4 # t))))"
    by (simp add: bs_neq)
  then show ?thesis using assms by simp
qed

lemma unquote_escape:
  assumes "(of_char c :: nat) < 0x80"
  shows "unquote_loop (escape c @ t) = map_option ((#) c) (unquote_loop t)"
proof -
  consider (q) "c = bs \<or> c = dq"
    | (s) "c \<noteq> bs" "c \<noteq> dq" "c \<in> {CHR 0x08, CHR 0x0C, CHR 0x0A, CHR 0x0D, CHR 0x09}"
    | (l) "c \<noteq> bs" "c \<noteq> dq" "c \<notin> {CHR 0x08, CHR 0x0C, CHR 0x0A, CHR 0x0D, CHR 0x09}"
    by blast
  then show ?thesis
  proof cases
    case q
    then show ?thesis by (auto simp: escape_def)
  next
    case s
    then show ?thesis by (auto simp: escape_def bs_def dq_def)
  next
    case l
    let ?e = "[bs, CHR ''u'', CHR ''0'', CHR ''0'', hex (of_char c div 16), hex (of_char c mod 16)]"
    have e: "escape c = ?e" using l by (simp add: escape_def)
    have ns: "\<not> IsSurrogate (of_char c)" using assms by (simp add: IsSurrogate_def)
    have "unquote_loop (?e @ t) = map_option ((@) (EncodeRune (of_char c))) (unquote_loop t)"
      using unquote_u[OF getu4_00[OF assms, of t] ns] by (simp del: unquote_loop.simps)
    then show ?thesis unfolding e
      by (cases "unquote_loop t") (simp_all add: EncodeRune_ascii[OF assms] del: unquote_loop.simps)
  qed
qed

lemma getu4_fffd:
  "getu4 (bs # CHR ''u'' # CHR ''f'' # CHR ''f'' # CHR ''f'' # CHR ''d'' # t) = Some RuneError"
  by (simp add: getu4_def hexval_def RuneError_def)

lemma unquote_fffd:
  "unquote_loop ([bs, CHR ''u'', CHR ''f'', CHR ''f'', CHR ''f'', CHR ''d''] @ t)
     = map_option ((@) (EncodeRune RuneError)) (unquote_loop t)"
proof -
  have "\<not> IsSurrogate RuneError" by (simp add: IsSurrogate_def RuneError_def)
  from unquote_u[OF getu4_fffd this] show ?thesis by (simp del: unquote_loop.simps)
qed

lemma getu4_202x:
  assumes "r = 0x2028 \<or> r = 0x2029"
  shows "getu4 (bs # CHR ''u'' # CHR ''2'' # CHR ''0'' # CHR ''2'' # hex (r mod 16) # t) = Some r"
  using assms by (auto simp: getu4_def hexval_def hex_def)

lemma unquote_202x:
  assumes "r = 0x2028 \<or> r = 0x2029"
  shows "unquote_loop ([bs, CHR ''u'', CHR ''2'', CHR ''0'', CHR ''2'', hex (r mod 16)] @ t)
           = map_option ((@) (EncodeRune r)) (unquote_loop t)"
proof -
  have "\<not> IsSurrogate r" using assms by (auto simp: IsSurrogate_def)
  from unquote_u[OF getu4_202x[OF assms] this] show ?thesis by (simp del: unquote_loop.simps)
qed

lemma unquote_raw:
  assumes d: "DecodeRune (c # s) = (r, sz)" and sz2: "2 \<le> sz"
  shows "unquote_loop (take sz (c # s) @ t) = map_option ((@) (take sz (c # s))) (unquote_loop t)"
proof -
  note M = DecodeRune_multi[OF d sz2]
  from sz2 obtain k where k: "sz = Suc k" by (cases sz) auto
  have len: "k \<le> length s" using M k by simp
  have hi: "(0x80::nat) \<le> of_char c" using M k by simp
  have c: "c \<noteq> bs" "c \<noteq> dq" "\<not> (of_char c :: nat) < 0x20" "\<not> (of_char c :: nat) < 0x80"
    using hi by (auto simp: bs_def dq_def)
  have loc: "DecodeRune (c # take k s @ t) = (r, sz)" using M k by simp
  have "unquote_loop (c # take k s @ t)
          = map_option ((@) (EncodeRune r)) (unquote_loop (drop (sz - 1) (take k s @ t)))"
    using c loc by simp
  also have "drop (sz - 1) (take k s @ t) = t" using len k by simp
  also have "EncodeRune r = take sz (c # s)" using M by simp
  finally have "unquote_loop (c # take k s @ t)
                  = map_option ((@) (take sz (c # s))) (unquote_loop t)" .
  then show ?thesis by (simp add: k del: unquote_loop.simps)
qed

lemma unquote_quote_body: "unquote_loop (quote_body s) = Some (coerceUTF8 s)"
proof (induction s rule: quote_body.induct)
  case 1
  show ?case by simp
next
  case (2 c s)
  show ?case
  proof (cases "(of_char c :: nat) < 0x80")
    case True
    have co: "coerceUTF8 (c # s) = c # coerceUTF8 s"
      using True DecodeRune_ascii[OF True, of s] by (simp add: RuneError_def)
    have "unquote_loop (quote_body (c # s)) = map_option ((#) c) (unquote_loop (quote_body s))"
      using True by (cases "htmlSafe c") (simp_all add: unquote_plain unquote_escape del: unquote_loop.simps)
    then show ?thesis using "2.IH"(1)[OF True] co by simp
  next
    case False
    obtain r sz where d: "DecodeRune (c # s) = (r, sz)" by (cases "DecodeRune (c # s)") auto
    have hi: "(0x80::nat) \<le> of_char c" using False by simp
    consider (bad) "r = RuneError \<and> sz = 1" | (sep) "\<not> (r = RuneError \<and> sz = 1)" "r = 0x2028 \<or> r = 0x2029"
      | (raw) "\<not> (r = RuneError \<and> sz = 1)" "\<not> (r = 0x2028 \<or> r = 0x2029)" by blast
    then show ?thesis
    proof cases
      case bad
      let ?e = "[bs, CHR ''u'', CHR ''f'', CHR ''f'', CHR ''f'', CHR ''d'']"
      have q: "quote_body (c # s) = ?e @ quote_body s" using False d bad by simp
      have "unquote_loop (quote_body s) = Some (coerceUTF8 s)"
        using False d bad by (intro "2.IH"(2)) auto
      then have "unquote_loop (quote_body (c # s)) = Some (EncodeRune RuneError @ coerceUTF8 s)"
        unfolding q unquote_fffd by simp
      then show ?thesis using d bad by simp
    next
      case sep
      let ?e = "[bs, CHR ''u'', CHR ''2'', CHR ''0'', CHR ''2'', hex (r mod 16)]"
      have q: "quote_body (c # s) = ?e @ quote_body (drop (sz - 1) s)" using False d sep by simp
      have sz2: "2 \<le> sz"
        using DecodeRune_size[OF d] DecodeRune_high_single[OF hi, of s r] d sep(1)
        by (cases "sz = 1") auto
      note M = DecodeRune_multi[OF d sz2]
      have "unquote_loop (quote_body (drop (sz - 1) s)) = Some (coerceUTF8 (drop (sz - 1) s))"
        using False d sep by (intro "2.IH"(3)) auto
      then have "unquote_loop (quote_body (c # s))
                   = Some (EncodeRune r @ coerceUTF8 (drop (sz - 1) s))"
        unfolding q unquote_202x[OF sep(2)] by simp
      moreover have "coerceUTF8 (c # s) = take sz (c # s) @ coerceUTF8 (drop (sz - 1) s)"
        using d sep(1) by auto
      ultimately show ?thesis using M by simp
    next
      case raw
      have q: "quote_body (c # s) = take sz (c # s) @ quote_body (drop (sz - 1) s)"
        using False d raw by simp
      have sz2: "2 \<le> sz"
        using DecodeRune_size[OF d] DecodeRune_high_single[OF hi, of s r] d raw(1)
        by (cases "sz = 1") auto
      have "unquote_loop (quote_body (drop (sz - 1) s)) = Some (coerceUTF8 (drop (sz - 1) s))"
        using False d raw by (intro "2.IH"(4)) auto
      then have "unquote_loop (quote_body (c # s))
                   = Some (take sz (c # s) @ coerceUTF8 (drop (sz - 1) s))"
        unfolding q unquote_raw[OF d sz2] by simp
      moreover have "coerceUTF8 (c # s) = take sz (c # s) @ coerceUTF8 (drop (sz - 1) s)"
        using d raw(1) by auto
      ultimately show ?thesis by simp
    qed
  qed
qed

lemma coerceUTF8_valid: "ValidString s \<Longrightarrow> coerceUTF8 s = s"
proof (induction s rule: coerceUTF8.induct)
  case 1
  show ?case by simp
next
  case (2 c s)
  obtain r sz where d: "DecodeRune (c # s) = (r, sz)" by (cases "DecodeRune (c # s)") auto
  have ok: "\<not> (r = RuneError \<and> sz = 1)" and v: "ValidString (drop (sz - 1) s)"
    using "2.prems" d by simp_all
  have "coerceUTF8 (drop (sz - 1) s) = drop (sz - 1) s"
    using d ok v by (intro "2.IH"(2)) auto
  moreover obtain k where k: "sz = Suc k" using DecodeRune_size[OF d] by (cases sz) auto
  ultimately show ?case using d ok by auto
qed

subsection \<open>Values, members and objects of the marshalled text\<close>

declare unquote_loop.simps [simp del] scan_string.simps [simp del] quote_body.simps [simp del]
  coerceUTF8.simps [simp del]

lemma read_string_quote_body:
  "read_string (quote_body s @ dq # rest) = Some (coerceUTF8 s, rest)"
  using scan_string_quote_body[of "[]" s rest] by (simp add: read_string_def unquote_quote_body)

lemma quote_body_plain: "plain name \<Longrightarrow> quote_body name = name"
  by (induction name) (simp_all add: plain_def quote_body.simps)

lemma coerceUTF8_plain: "plain name \<Longrightarrow> coerceUTF8 name = name"
proof (induction name)
  case Nil
  show ?case by (simp add: coerceUTF8.simps)
next
  case (Cons c name)
  then have c: "(of_char c :: nat) < 0x80" and p: "plain name" by (simp_all add: plain_def)
  show ?case using Cons.IH[OF p] DecodeRune_ascii[OF c, of name] c
    by (simp add: coerceUTF8.simps RuneError_def)
qed

lemma read_string_key:
  "plain name \<Longrightarrow> read_string (name @ dq # rest) = Some (name, rest)"
  using read_string_quote_body[of name rest] by (simp add: quote_body_plain coerceUTF8_plain)

lemma not_space: "\<not> is_space dq" "\<not> is_space (CHR '','')" "\<not> is_space (CHR ''}'')"
  "\<not> is_space (CHR ''{'')" "\<not> is_space (CHR '':'')" "\<not> is_space (CHR ''-'')"
  by (simp_all add: is_space_def dq_def)

lemma is_digit_not_space: "is_digit c \<Longrightarrow> \<not> is_space c"
  by (auto simp: is_digit_def is_space_def)

lemma parse_value_string:
  "parse_value (Suc f) depth (appendString s @ rest) = Some (JString (coerceUTF8 s), rest)"
proof -
  have "dq \<noteq> CHR ''{''" "dq \<noteq> CHR ''[''" by (simp_all add: dq_def)
  then show ?thesis by (simp add: appendString_def not_space read_string_quote_body)
qed


lemma hd_decimal_nonzero: "1 \<le> n \<Longrightarrow> hd (decimal n) \<noteq> CHR ''0''"
proof (induction n rule: decimal.induct)
  case (1 n)
  show ?case
  proof (cases "n < 10")
    case True
    have "digit_char n \<noteq> CHR ''0''"
      using "1.prems" True by (simp add: digit_char_def char_of_eq_iff take_bit_eq_mod)
    then show ?thesis using True by (subst decimal.simps) simp
  next
    case False
    then have "1 \<le> n div 10" by simp
    then have "hd (decimal (n div 10)) \<noteq> CHR ''0''" using False by (intro "1.IH") simp_all
    then show ?thesis using False decimal_not_Nil[of "n div 10"]
      by (subst decimal.simps) simp
  qed
qed

lemma decimal_zero: "decimal 0 = ''0''"
  by (subst decimal.simps) (simp add: digit_char_def char_of_eq_iff take_bit_eq_mod)

lemma decimal_shape:
  "\<exists>d ds. decimal n = d # ds \<and> is_digit d \<and> list_all is_digit ds \<and> (d = CHR ''0'' \<longrightarrow> ds = [])"
proof -
  obtain d ds where dd: "decimal n = d # ds"
    using decimal_not_Nil[of n] by (cases "decimal n") auto
  have a: "is_digit d" "list_all is_digit ds" using decimal_is_digit[of n] dd by simp_all
  have "d = CHR ''0'' \<longrightarrow> ds = []"
  proof (cases "n = 0")
    case True
    then show ?thesis using dd decimal_zero by simp
  next
    case False
    have "hd (decimal n) \<noteq> CHR ''0''" using False by (intro hd_decimal_nonzero) simp
    then show ?thesis using dd by simp
  qed
  with dd a show ?thesis by blast
qed

lemma takeWhile_digits:
  "list_all is_digit ds \<Longrightarrow> \<not> is_digit c \<Longrightarrow>
   takeWhile is_digit (ds @ c # rest) = ds \<and> dropWhile is_digit (ds @ c # rest) = c # rest"
  by (induction ds) simp_all

lemma scan_number_tail:
  assumes c: "c = CHR '','' \<or> c = CHR ''}''"
  shows "scan_frac acc (c # rest) = Some (acc, c # rest)"
  using c by (auto simp: scan_frac_def scan_exp_def)

lemma sep_not_digit: "c = CHR '','' \<or> c = CHR ''}'' \<Longrightarrow> \<not> is_digit c"
  by (auto simp: is_digit_def)

lemma scan_number_digits:
  assumes c: "c = CHR '','' \<or> c = CHR ''}''"
    and sg: "sg = [] \<or> sg = ''-''"
  shows "scan_number (sg @ decimal n @ c # rest) = Some (sg @ decimal n, c # rest)"
proof -
  obtain d ds where dd: "decimal n = d # ds" and d: "is_digit d" and ds: "list_all is_digit ds"
    and z: "d = CHR ''0'' \<longrightarrow> ds = []"
    using decimal_shape[of n] by blast
  have dm: "d \<noteq> CHR ''-''" using d by (auto simp: is_digit_def)
  note tw = takeWhile_digits[OF ds sep_not_digit[OF c], of rest]
  show ?thesis
  proof (cases "d = CHR ''0''")
    case True
    then show ?thesis
      using sg z dm scan_number_tail[OF c] by (auto simp: scan_number_def dd)
  next
    case False
    then show ?thesis
      using sg d dm tw scan_number_tail[OF c] by (auto simp: scan_number_def dd)
  qed
qed

lemma parse_value_number:
  assumes c: "c = CHR '','' \<or> c = CHR ''}''"
    and sg: "sg = [] \<or> sg = ''-''"
  shows "parse_value (Suc f) depth (sg @ decimal n @ c # rest)
           = Some (JNumber (sg @ decimal n), c # rest)"
proof -
  obtain d ds where dd: "decimal n = d # ds" and d: "is_digit d"
    using decimal_shape[of n] by blast
  obtain x xs where x: "sg @ decimal n = x # xs" and xd: "x = CHR ''-'' \<or> is_digit x"
    using sg dd d by auto
  have xs: "\<not> is_space x" "x \<noteq> CHR ''{''" "x \<noteq> CHR ''[''" "x \<noteq> dq"
    using xd by (auto simp: is_space_def is_digit_def dq_def)
  have "parse_value (Suc f) depth (x # xs @ c # rest)
          = map_option (\<lambda>(n, r'). (JNumber n, r')) (scan_number (x # xs @ c # rest))"
    using xs xd by auto
  moreover have "scan_number ((sg @ decimal n) @ c # rest) = Some (sg @ decimal n, c # rest)"
    using scan_number_digits[OF c sg, of n rest] by simp
  then have "scan_number (x # xs @ c # rest) = Some (x # xs, c # rest)"
    unfolding x by simp
  ultimately have "parse_value (Suc f) depth ((x # xs) @ c # rest) = Some (JNumber (x # xs), c # rest)"
    by simp
  then show ?thesis unfolding x[symmetric] by simp
qed

lemma parse_value_uint64:
  "c = CHR '','' \<or> c = CHR ''}'' \<Longrightarrow>
   parse_value (Suc f) depth (Sprintf_d_uint64 u @ c # rest)
     = Some (JNumber (Sprintf_d_uint64 u), c # rest)"
  using parse_value_number[of c "[]" f depth "unat u" rest] by (simp add: Sprintf_d_uint64_def)

lemma parse_value_int:
  "c = CHR '','' \<or> c = CHR ''}'' \<Longrightarrow>
   parse_value (Suc f) depth (Sprintf_d_int i @ c # rest)
     = Some (JNumber (Sprintf_d_int i), c # rest)"
  using parse_value_number[of c "[]" f depth "unat i" rest]
        parse_value_number[of c "''-''" f depth "unat (- i)" rest]
  by (simp add: Sprintf_d_int_def)

lemma skip_ws_key: "skip_ws (key name @ X) = key name @ X"
  by (simp add: key_def not_space)

lemma member_generic:
  assumes p: "plain name" and c: "c = CHR '','' \<or> c = CHR ''}''"
    and v: "parse_value f depth (V @ c # rest) = Some (v, c # rest)"
  shows "parse_members (Suc f) depth (key name @ V @ c # rest)
           = (if c = CHR '','' then
                map_option (\<lambda>(ms, r5). ((name, v) # ms, r5)) (parse_members f depth rest)
              else Some ([(name, v)], rest))"
proof -
  have k: "key name @ V @ c # rest = dq # name @ dq # CHR '':'' # V @ c # rest"
    by (simp add: key_def)
  have rs: "read_string (name @ dq # CHR '':'' # V @ c # rest) = Some (name, CHR '':'' # V @ c # rest)"
    by (rule read_string_key[OF p])
  have sc: "skip_ws (c # rest) = c # rest" using c by (auto simp: not_space)
  show ?thesis
    unfolding k using c by (auto simp: not_space rs v sc)
qed

lemma object_open:
  assumes "depth < maxNestingDepth"
  shows "parse_value (Suc f) depth (CHR ''{'' # key name @ X)
           = map_option (\<lambda>(ms, r'). (JObject ms, r')) (parse_members f (Suc depth) (key name @ X))"
proof -
  have "\<not> prefix ''}'' (key name @ X)" by (simp add: key_def dq_def)
  then show ?thesis using assms by (simp add: not_space skip_ws_key)
qed

lemma plain_names:
  "plain ''id''" "plain ''arch''" "plain ''version''" "plain ''name''" "plain ''family''"
  "plain ''seconds''" "plain ''seconds_humanized''" "plain ''boot_time_unix_seconds''"
  "plain ''boot_time_humanized''" "plain ''host''" "plain ''kernel''" "plain ''platform''"
  "plain ''uptimes''" "plain ''process_count_zombie_processes''"
  by (simp_all add: plain_def htmlSafe_def dq_def bs_def)

lemma member_string_last:
  "plain name \<Longrightarrow>
   parse_members (Suc (Suc f)) depth (key name @ appendString s @ CHR ''}'' # rest)
     = Some ([(name, JString (coerceUTF8 s))], rest)"
  using member_generic[of name "CHR ''}''" "Suc f" depth "appendString s" rest "JString (coerceUTF8 s)"]
        parse_value_string[of f depth s "CHR ''}'' # rest"]
  by simp

lemma member_string_next:
  "plain name \<Longrightarrow>
   parse_members (Suc (Suc f)) depth (key name @ appendString s @ CHR '','' # rest)
     = map_option (\<lambda>(ms, r5). ((name, JString (coerceUTF8 s)) # ms, r5))
         (parse_members (Suc f) depth rest)"
  using member_generic[of name "CHR '',''" "Suc f" depth "appendString s" rest "JString (coerceUTF8 s)"]
        parse_value_string[of f depth s "CHR '','' # rest"]
  by simp

lemma member_uint64_next:
  "plain name \<Longrightarrow>
   parse_members (Suc (Suc f)) depth (key name @ Sprintf_d_uint64 u @ CHR '','' # rest)
     = map_option (\<lambda>(ms, r5). ((name, JNumber (Sprintf_d_uint64 u)) # ms, r5))
         (parse_members (Suc f) depth rest)"
  using member_generic[of name "CHR '',''" "Suc f" depth "Sprintf_d_uint64 u" rest
                          "JNumber (Sprintf_d_uint64 u)"]
        parse_value_uint64[of "CHR '',''" f depth u rest]
  by simp

lemma member_int_last:
  "plain name \<Longrightarrow>
   parse_members (Suc (Suc f)) depth (key name @ Sprintf_d_int i @ CHR ''}'' # rest)
     = Some ([(name, JNumber (Sprintf_d_int i))], rest)"
  using member_generic[of name "CHR ''}''" "Suc f" depth "Sprintf_d_int i" rest
                          "JNumber (Sprintf_d_int i)"]
        parse_value_int[of "CHR ''}''" f depth i rest]
  by simp

lemma parse_Host:
  assumes "depth < maxNestingDepth"
  shows "parse_value (Suc (Suc (Suc f))) depth (Marshal_Host h @ rest) = Some (tree_Host h, rest)"
  using object_open[OF assms, of "Suc (Suc f)" "''id''" "appendString (ID h) @ CHR ''}'' # rest"]
  by (simp add: Marshal_Host_def tree_Host_def member_string_last plain_names
           del: parse_value.simps parse_members.simps)

lemma parse_Kernel:
  assumes "depth < maxNestingDepth"
  shows "parse_value (Suc (Suc (Suc (Suc f)))) depth (Marshal_Kernel k @ rest)
           = Some (tree_Kernel k, rest)"
  using object_open[OF assms, of "Suc (Suc (Suc f))" "''arch''"
          "appendString (Arch k) @ CHR '','' # key ''version'' @ appendString (Kernel_Version k)
           @ CHR ''}'' # rest"]
  by (simp add: Marshal_Kernel_def tree_Kernel_def member_string_last member_string_next plain_names
           del: parse_value.simps parse_members.simps)

lemma parse_Platform:
  assumes "depth < maxNestingDepth"
  shows "parse_value (Suc (Suc (Suc (Suc (Suc f))))) depth (Marshal_Platform p @ rest)
           = Some (tree_Platform p, rest)"
  using object_open[OF assms, of "Suc (Suc (Suc (Suc f)))" "''name''"
          "appendString (Platform_Name p) @ CHR '','' # key ''family'' @ appendString (Family p)
           @ CHR '','' # key ''version'' @ appendString (Platform_Version p) @ CHR ''}'' # rest"]
  by (simp add: Marshal_Platform_def tree_Platform_def member_string_last member_string_next
                plain_names
           del: parse_value.simps parse_members.simps)

lemma parse_Uptimes:
  assumes "depth < maxNestingDepth"
  shows "parse_value (Suc (Suc (Suc (Suc (Suc (Suc f)))))) depth (Marshal_Uptimes u @ rest)
           = Some (tree_Uptimes u, rest)"
  using object_open[OF assms, of "Suc (Suc (Suc (Suc (Suc f))))" "''seconds''"
          "Sprintf_d_uint64 (Seconds u) @ CHR '','' # key ''seconds_humanized''
           @ appendString (SecondsHumanized u) @ CHR '','' # key ''boot_time_unix_seconds''
           @ Sprintf_d_uint64 (BootTimeUnixSeconds u) @ CHR '','' # key ''boot_time_humanized''
           @ appendString (BootTimeHumanized u) @ CHR ''}'' # rest"]
  by (simp add: Marshal_Uptimes_def tree_Uptimes_def member_string_last member_string_next
                member_uint64_next plain_names
           del: parse_value.simps parse_members.simps)

lemma depth1: "Suc 0 < maxNestingDepth" "0 < maxNestingDepth"
  by (simp_all add: maxNestingDepth_def)

lemma parse_Output:
  "parse_value (Suc (Suc (Suc (Suc (Suc (Suc (Suc (Suc (Suc (Suc (Suc f))))))))))) 0
     (Marshal_Output o' @ rest) = Some (tree_Output o', rest)"
proof -
  let ?d = "Suc 0"
  let ?R5 = "key ''process_count_zombie_processes''
             @ Sprintf_d_int (ProcessCountZombieProcesses o') @ CHR ''}'' # rest"
  let ?R4 = "key ''uptimes'' @ Marshal_Uptimes (Uptimes o') @ CHR '','' # ?R5"
  let ?R3 = "key ''platform'' @ Marshal_Platform (Platform o') @ CHR '','' # ?R4"
  let ?R2 = "key ''kernel'' @ Marshal_Kernel (Kernel o') @ CHR '','' # ?R3"
  let ?R1 = "key ''host'' @ Marshal_Host (Host o') @ CHR '','' # ?R2"
  have m5: "parse_members (Suc (Suc (Suc (Suc (Suc (Suc f)))))) ?d ?R5
              = Some ([(''process_count_zombie_processes'',
                         JNumber (Sprintf_d_int (ProcessCountZombieProcesses o')))], rest)"
    by (rule member_int_last) (rule plain_names)
  have m4: "parse_members (Suc (Suc (Suc (Suc (Suc (Suc (Suc f))))))) ?d ?R4
              = Some ([(''uptimes'', tree_Uptimes (Uptimes o')),
                       (''process_count_zombie_processes'',
                         JNumber (Sprintf_d_int (ProcessCountZombieProcesses o')))], rest)"
    using member_generic[OF plain_names(13), of "CHR '',''" "Suc (Suc (Suc (Suc (Suc (Suc f)))))" ?d
            "Marshal_Uptimes (Uptimes o')" ?R5 "tree_Uptimes (Uptimes o')"]
          parse_Uptimes[OF depth1(1), of f "Uptimes o'" "CHR '','' # ?R5"] m5
    by (simp del: parse_value.simps parse_members.simps)
  have m3: "parse_members (Suc (Suc (Suc (Suc (Suc (Suc (Suc (Suc f)))))))) ?d ?R3
              = Some ([(''platform'', tree_Platform (Platform o')),
                       (''uptimes'', tree_Uptimes (Uptimes o')),
                       (''process_count_zombie_processes'',
                         JNumber (Sprintf_d_int (ProcessCountZombieProcesses o')))], rest)"
    using member_generic[OF plain_names(12), of "CHR '',''" "Suc (Suc (Suc (Suc (Suc (Suc (Suc f))))))" ?d
            "Marshal_Platform (Platform o')" ?R4 "tree_Platform (Platform o')"]
          parse_Platform[OF depth1(1), of "Suc (Suc f)" "Platform o'" "CHR '','' # ?R4"] m4
    by (simp del: parse_value.simps parse_members.simps)
  have m2: "parse_members (Suc (Suc (Suc (Suc (Suc (Suc (Suc (Suc (Suc f))))))))) ?d ?R2
              = Some ([(''kernel'', tree_Kernel (Kernel o')),
                       (''platform'', tree_Platform (Platform o')),
                       (''uptimes'', tree_Uptimes (Uptimes o')),
                       (''process_count_zombie_processes'',
                         JNumber (Sprintf_d_int (ProcessCountZombieProcesses o')))], rest)"
    using member_generic[OF plain_names(11), of "CHR '',''"
            "Suc (Suc (Suc (Suc (Suc (Suc (Suc (Suc f)))))))" ?d
            "Marshal_Kernel (Kernel o')" ?R3 "tree_Kernel (Kernel o')"]
          parse_Kernel[OF depth1(1), of "Suc (Suc (Suc (Suc f)))" "Kernel o'" "CHR '','' # ?R3"] m3
    by (simp del: parse_value.simps parse_members.simps)
  have m1: "parse_members (Suc (Suc (Suc (Suc (Suc (Suc (Suc (Suc (Suc (Suc f)))))))))) ?d ?R1
              = Some ([(''host'', tree_Host (Host o')),
                       (''kernel'', tree_Kernel (Kernel o')),
                       (''platform'', tree_Platform (Platform o')),
                       (''uptimes'', tree_Uptimes (Uptimes o')),
                       (''process_count_zombie_processes'',
                         JNumber (Sprintf_d_int (ProcessCountZombieProcesses o')))], rest)"
    using member_generic[OF plain_names(10), of "CHR '',''"
            "Suc (Suc (Suc (Suc (Suc (Suc (Suc (Suc (Suc f))))))))" ?d
            "Marshal_Host (Host o')" ?R2 "tree_Host (Host o')"]
          parse_Host[OF depth1(1), of "Suc (Suc (Suc (Suc (Suc (Suc f)))))" "Host o'" "CHR '','' # ?R2"] m2
    by (simp del: parse_value.simps parse_members.simps)
  have "Marshal_Output o' @ rest = CHR ''{'' # ?R1"
    by (simp add: Marshal_Output_def)
  then show ?thesis
    using object_open[OF depth1(2), of "Suc (Suc (Suc (Suc (Suc (Suc (Suc (Suc (Suc (Suc f)))))))))"
            "''host''" "Marshal_Host (Host o') @ CHR '','' # ?R2"] m1
    by (simp add: tree_Output_def del: parse_value.simps parse_members.simps)
qed

subsection \<open>Storing the parsed value\<close>

lemma ParseInt_Sprintf: "ParseInt (Sprintf_d_int i) = (i, None)"
proof (cases "sint i < 0")
  case True
  then show ?thesis using ParseInt_decimal_neg[OF True] by (simp add: Sprintf_d_int_def)
next
  case False
  then have "0 \<le> sint i" by simp
  then show ?thesis using False ParseInt_decimal_nonneg by (simp add: Sprintf_d_int_def)
qed

lemma store_Host_tree:
  "store_Host equalFold (tree_Host h) (h0, e) = (\<lparr>ID = coerceUTF8 (ID h)\<rparr>, e)"
  by (cases h0) (simp add: store_Host_def tree_Host_def store_struct_def find_field_def field_def
       store_string_def)

lemma store_Kernel_tree:
  "store_Kernel equalFold (tree_Kernel k) (k0, e)
     = (\<lparr>Arch = coerceUTF8 (Arch k), Kernel_Version = coerceUTF8 (Kernel_Version k)\<rparr>, e)"
  by (cases k0) (simp add: store_Kernel_def tree_Kernel_def store_struct_def find_field_def field_def
       store_string_def)

lemma store_Platform_tree:
  "store_Platform equalFold (tree_Platform p) (p0, e)
     = (\<lparr>Platform_Name = coerceUTF8 (Platform_Name p), Family = coerceUTF8 (Family p),
         Platform_Version = coerceUTF8 (Platform_Version p)\<rparr>, e)"
  by (cases p0) (simp add: store_Platform_def tree_Platform_def store_struct_def find_field_def
       field_def store_string_def)

lemma store_Uptimes_tree:
  "store_Uptimes equalFold (tree_Uptimes u) (u0, e)
     = (\<lparr>Seconds = Seconds u, SecondsHumanized = coerceUTF8 (SecondsHumanized u),
         BootTimeUnixSeconds = BootTimeUnixSeconds u,
         BootTimeHumanized = coerceUTF8 (BootTimeHumanized u)\<rparr>, e)"
  by (cases u0) (simp add: store_Uptimes_def tree_Uptimes_def store_struct_def find_field_def
       field_def store_string_def store_uint64_def ParseUint_Sprintf)

lemma store_Output_tree:
  "store_Output equalFold (tree_Output o') (o0, e) = (coerce_Output o', e)"
  by (cases o0) (simp add: store_Output_def tree_Output_def store_struct_def find_field_def
       field_def store_int_def ParseInt_Sprintf store_Host_tree store_Kernel_tree
       store_Platform_tree store_Uptimes_tree coerce_Output_def)

lemma Marshal_Output_fuel: "\<exists>f. 2 * length (Marshal_Output o') + 2 =
  Suc (Suc (Suc (Suc (Suc (Suc (Suc (Suc (Suc (Suc (Suc f))))))))))"
proof -
  have "11 \<le> 2 * length (Marshal_Output o') + 2" by (simp add: Marshal_Output_def key_def)
  then obtain f where "2 * length (Marshal_Output o') + 2 = 11 + f" using le_Suc_ex by blast
  then show ?thesis by (intro exI[of _ f]) simp
qed

lemma Unmarshal_Marshal:
  "Unmarshal equalFold (Marshal_Output o') o0 = (coerce_Output o', None)"
proof -
  obtain f where f: "2 * length (Marshal_Output o') + 2 =
      Suc (Suc (Suc (Suc (Suc (Suc (Suc (Suc (Suc (Suc (Suc f))))))))))"
    using Marshal_Output_fuel by blast
  have "parse_value (2 * length (Marshal_Output o') + 2) 0 (Marshal_Output o' @ [])
          = Some (tree_Output o', [])"
    unfolding f by (rule parse_Output)
  then show ?thesis by (simp add: Unmarshal_def store_Output_tree)
qed

lemma coerce_Output_valid: "valid_Output o' \<Longrightarrow> coerce_Output o' = o'"
  by (simp add: coerce_Output_def valid_Output_def coerceUTF8_valid)

lemma bad_byte: "coerceUTF8 [CHR 0xFF] = [CHR 0xEF, CHR 0xBF, CHR 0xBD]"
  by (simp add: coerceUTF8.simps DecodeRune.simps EncodeRune_def RuneError_def Let_def
        char_of_eq_iff take_bit_eq_mod)

lemma JSON_then_ParseOutputJSON:
  "ParseOutputJSON equalFold (fst (JSON o')) = Inr (coerce_Output o')"
  by (simp add: ParseOutputJSON_def JSON_def Unmarshal_Marshal)

lemma ValidString_ascii: "\<forall>c \<in> set s. (of_char c :: nat) < 0x80 \<Longrightarrow> ValidString s"
proof (induction s)
  case Nil
  show ?case by simp
next
  case (Cons c s)
  then have c: "(of_char c :: nat) < 0x80" by simp
  show ?case using Cons DecodeRune_ascii[OF c, of s] c by (simp add: RuneError_def)
qed

subsection \<open>The bound on the parser's calls is never reached\<close>

text \<open>
  Every scanner leaves less input than it was given, so a parse with the bound that
  \<open>Unmarshal\<close> passes gives the result of a parse with any larger bound: \<open>None\<close> there is a
  syntax error of the input, never the bound.
\<close>

lemma skip_ws_length: "length (skip_ws s) \<le> length s"
  by (induction s) auto

lemma scan_string_length:
  "scan_string acc s = Some (raw, rest) \<Longrightarrow> length rest < length s"
proof (induction acc s rule: scan_string.induct)
  case (1 acc)
  then show ?case by (simp add: scan_string.simps)
next
  case (2 acc c s)
  show ?case
  proof (cases "c = dq")
    case True
    then show ?thesis using "2.prems" by (simp add: scan_string.simps)
  next
    case ndq: False
    show ?thesis
    proof (cases "c = bs")
      case True
      then obtain e s' where s: "s = e # s'"
        using "2.prems" ndq by (cases s) (auto simp: scan_string.simps)
      show ?thesis
      proof (cases "e \<in> set ''bfnrt'' \<or> e = bs \<or> e = CHR ''/'' \<or> e = dq")
        case e1: True
        then have "scan_string (acc @ [c, e]) s' = Some (raw, rest)"
          using "2.prems" ndq True s by (simp add: scan_string.simps)
        then have "length rest < length s'"
          using ndq True s e1 by (intro "2.IH"(1)) auto
        then show ?thesis using s by simp
      next
        case e2: False
        then have eu: "e = CHR ''u''"
          using "2.prems" ndq True s by (auto simp: scan_string.simps split: if_splits)
        then obtain h1 h2 h3 h4 s'' where s': "s' = h1 # h2 # h3 # h4 # s''"
          and hx: "is_hex h1 \<and> is_hex h2 \<and> is_hex h3 \<and> is_hex h4"
          using "2.prems" ndq True s e2
          by (auto simp: scan_string.simps split: if_splits list.splits)
        have "scan_string (acc @ [c, e, h1, h2, h3, h4]) s'' = Some (raw, rest)"
          using "2.prems" ndq True s e2 eu s' hx by (simp add: scan_string.simps)
        then have "length rest < length s''"
          using ndq True s e2 eu s' hx by (intro "2.IH"(2)) auto
        then show ?thesis using s s' by simp
      qed
    next
      case nbs: False
      then have "scan_string (acc @ [c]) s = Some (raw, rest)" and "\<not> (of_char c :: nat) < 0x20"
        using "2.prems" ndq by (auto simp: scan_string.simps split: if_splits)
      then have "length rest < length s"
        using ndq nbs by (intro "2.IH"(3)) auto
      then show ?thesis by simp
    qed
  qed
qed

lemma read_string_length: "read_string s = Some (v, r) \<Longrightarrow> length r < length s"
  by (auto simp: read_string_def split: option.splits dest: scan_string_length)

lemma dropWhile_length: "length (dropWhile P s) \<le> length s"
  by (induction s) auto

lemma scan_exp_length: "scan_exp acc s = Some (n, r) \<Longrightarrow> length r \<le> length s"
  using dropWhile_length[of is_digit]
  by (auto simp: scan_exp_def Let_def split: list.splits if_splits intro: le_trans le_SucI)


lemma scan_frac_length: "scan_frac acc s = Some (n, r) \<Longrightarrow> length r \<le> length s"
proof (cases s)
  case Nil
  assume "scan_frac acc s = Some (n, r)"
  then show ?thesis using Nil by (simp add: scan_frac_def)
next
  case (Cons p t)
  assume a: "scan_frac acc s = Some (n, r)"
  show ?thesis
  proof (cases "p = CHR ''.''")
    case True
    then obtain d t' where t: "t = d # t'" and
      e: "scan_exp (acc @ p # d # takeWhile is_digit t') (dropWhile is_digit t') = Some (n, r)"
      using a Cons by (auto simp: scan_frac_def split: list.splits if_splits)
    have "length r \<le> length (dropWhile is_digit t')" using e by (rule scan_exp_length)
    also have "\<dots> \<le> length t'" by (rule dropWhile_length)
    finally show ?thesis using Cons t by simp
  next
    case False
    then have "scan_exp acc s = Some (n, r)" using a Cons by (simp add: scan_frac_def)
    then show ?thesis by (rule scan_exp_length)
  qed
qed

lemma scan_number_length: "scan_number s = Some (n, r) \<Longrightarrow> length r < length s"
proof -
  assume a: "scan_number s = Some (n, r)"
  define sg where "sg = (case s of [] \<Rightarrow> [] | g # r \<Rightarrow> if g = CHR ''-'' then [g] else [])"
  define s1 where "s1 = drop (length sg) s"
  have l1: "length s1 \<le> length s" by (simp add: s1_def)
  obtain d t where s1: "s1 = d # t"
    using a by (cases s1) (auto simp: scan_number_def Let_def sg_def s1_def)
  have "\<exists>acc t'. scan_frac acc t' = Some (n, r) \<and> length t' \<le> length t"
  proof (cases "d = CHR ''0''")
    case True
    then have "scan_frac (sg @ [d]) t = Some (n, r)"
      using a s1 by (simp add: scan_number_def Let_def sg_def[symmetric] s1_def[symmetric])
    then show ?thesis by blast
  next
    case False
    then have "scan_frac (sg @ d # takeWhile is_digit t) (dropWhile is_digit t) = Some (n, r)"
      using a s1
      by (auto simp: scan_number_def Let_def sg_def[symmetric] s1_def[symmetric] split: if_splits)
    then show ?thesis using dropWhile_length[of is_digit t] by blast
  qed
  then obtain acc t' where "scan_frac acc t' = Some (n, r)" and t': "length t' \<le> length t" by blast
  then have "length r \<le> length t'" by (auto dest: scan_frac_length)
  then show ?thesis using t' s1 l1 by simp
qed

lemma drop1_prefix: "prefix [c] x \<Longrightarrow> length (drop 1 x) < length x"
  by (cases x) auto

lemma drop1_skip_ws: "prefix [c] (skip_ws r) \<Longrightarrow> length (drop 1 (skip_ws r)) < length r"
  using drop1_prefix[of c "skip_ws r"] skip_ws_length[of r] by simp

lemma skip_ws_Cons: "skip_ws s = c # r \<Longrightarrow> length r < length s"
  using skip_ws_length[of s] by simp

lemma parse_length:
  "(\<forall>v r. parse_value f d s = Some (v, r) \<longrightarrow> length r < length s)"
  "(\<forall>ms r. parse_members f d s = Some (ms, r) \<longrightarrow> length r < length s)"
  "(\<forall>es r. parse_elements f d s = Some (es, r) \<longrightarrow> length r < length s)"
proof (induction f d s and f d s and f d s rule: parse_value_parse_members_parse_elements.induct)
  case (1 depth s)
  show ?case by simp
next
  case (2 fuel depth s)
  show ?case
  proof (intro allI impI)
    fix v r assume a: "parse_value (Suc fuel) depth s = Some (v, r)"
    then obtain c t where sk: "skip_ws s = c # t" by (cases "skip_ws s") auto
    have lt: "length t < length s" using sk by (rule skip_ws_Cons)
    have lct: "length (c # t) \<le> length s" using skip_ws_length[of s] sk by simp
    consider (obj) "c = CHR ''{''" | (arr) "c \<noteq> CHR ''{''" "c = CHR ''[''"
      | (str) "c \<noteq> CHR ''{''" "c \<noteq> CHR ''[''" "c = dq"
      | (num) "c \<noteq> CHR ''{''" "c \<noteq> CHR ''[''" "c \<noteq> dq" "c = CHR ''-'' \<or> is_digit c"
      | (lit) "c \<noteq> CHR ''{''" "c \<noteq> CHR ''[''" "c \<noteq> dq" "\<not> (c = CHR ''-'' \<or> is_digit c)"
      by blast
    then show "length r < length s"
    proof cases
      case obj
      show ?thesis
      proof (cases "prefix ''}'' (skip_ws t)")
        case True
        then have "r = drop 1 (skip_ws t)" using a sk obj by (simp split: if_splits)
        then show ?thesis using drop1_skip_ws[OF True] lt by simp
      next
        case False
        then have nd: "\<not> maxNestingDepth \<le> depth" using a sk obj by (simp split: if_splits)
        then obtain ms where "parse_members fuel (Suc depth) t = Some (ms, r)"
          using a sk obj False by (auto split: if_splits)
        then have "length r < length t" using "2.IH"(1)[OF sk obj nd False] by blast
        then show ?thesis using lt by simp
      qed
    next
      case arr
      show ?thesis
      proof (cases "prefix '']'' (skip_ws t)")
        case True
        then have "r = drop 1 (skip_ws t)" using a sk arr by (simp split: if_splits)
        then show ?thesis using drop1_skip_ws[OF True] lt by simp
      next
        case False
        then have nd: "\<not> maxNestingDepth \<le> depth" using a sk arr by (simp split: if_splits)
        then obtain es where "parse_elements fuel (Suc depth) t = Some (es, r)"
          using a sk arr False by (auto split: if_splits)
        then have "length r < length t" using "2.IH"(2)[OF sk arr nd False] by blast
        then show ?thesis using lt by simp
      qed
    next
      case str
      then obtain x where "read_string t = Some (x, r)" using a sk by auto
      then have "length r < length t" by (rule read_string_length)
      then show ?thesis using lt by simp
    next
      case num
      then obtain x where "scan_number (c # t) = Some (x, r)" using a sk by auto
      then have "length r < length (c # t)" by (rule scan_number_length)
      then show ?thesis using lct by simp
    next
      case lit
      then have "r = drop 4 (c # t) \<or> r = drop 5 (c # t)"
        using a sk by (auto split: if_splits)
      then show ?thesis using lct by auto
    qed
  qed
next
  case (3 depth s)
  show ?case by simp
next
  case (4 fuel depth s)
  show ?case
  proof (intro allI impI)
    fix ms r assume a: "parse_members (Suc fuel) depth s = Some (ms, r)"
    then obtain c t where sk: "skip_ws s = c # t" by (cases "skip_ws s") auto
    have lt: "length t < length s" using sk by (rule skip_ws_Cons)
    have c: "c = dq" using a sk by (simp split: if_splits)
    obtain k r1 where rs: "read_string t = Some (k, r1)"
      using a sk c by (cases "read_string t") auto
    have l1: "length r1 < length t" using rs by (rule read_string_length)
    have col: "prefix '':'' (skip_ws r1)" using a sk c rs by (simp split: if_splits)
    obtain v r3 where pv: "parse_value fuel depth (drop 1 (skip_ws r1)) = Some (v, r3)"
      using a sk c rs col by (cases "parse_value fuel depth (drop 1 (skip_ws r1))") auto
    have "length r3 < length (drop 1 (skip_ws r1))"
      using "4.IH"(1)[OF sk c rs refl col] pv by blast
    then have l3: "length r3 < length s" using drop1_skip_ws[OF col] l1 lt by simp
    show "length r < length s"
    proof (cases "prefix '','' (skip_ws r3)")
      case True
      then obtain ms' where "parse_members fuel depth (drop 1 (skip_ws r3)) = Some (ms', r)"
        using a sk c rs col pv by auto
      then have "length r < length (drop 1 (skip_ws r3))"
        using "4.IH"(2)[OF sk c rs refl col pv refl True] by blast
      then show ?thesis using drop1_skip_ws[OF True] l3 by simp
    next
      case False
      then have e: "prefix ''}'' (skip_ws r3)" and "r = drop 1 (skip_ws r3)"
        using a sk c rs col pv by (auto split: if_splits)
      then show ?thesis using drop1_skip_ws[OF e] l3 by simp
    qed
  qed
next
  case (5 depth s)
  show ?case by simp
next
  case (6 fuel depth s)
  show ?case
  proof (intro allI impI)
    fix es r assume a: "parse_elements (Suc fuel) depth s = Some (es, r)"
    obtain v r3 where pv: "parse_value fuel depth s = Some (v, r3)"
      using a by (cases "parse_value fuel depth s") auto
    have l3: "length r3 < length s" using "6.IH"(1) pv by blast
    show "length r < length s"
    proof (cases "prefix '','' (skip_ws r3)")
      case True
      then obtain es' where "parse_elements fuel depth (drop 1 (skip_ws r3)) = Some (es', r)"
        using a pv by auto
      then have "length r < length (drop 1 (skip_ws r3))"
        using "6.IH"(2)[OF pv refl True] by blast
      then show ?thesis using drop1_skip_ws[OF True] l3 by simp
    next
      case False
      then have e: "prefix '']'' (skip_ws r3)" and "r = drop 1 (skip_ws r3)"
        using a pv by (auto split: if_splits)
      then show ?thesis using drop1_skip_ws[OF e] l3 by simp
    qed
  qed
qed

lemma parse_fuel:
  "(\<forall>f'. 2 * length s + 2 \<le> f \<longrightarrow> f \<le> f' \<longrightarrow> parse_value f' d s = parse_value f d s)"
  "(\<forall>f'. 2 * length s + 1 \<le> f \<longrightarrow> f \<le> f' \<longrightarrow> parse_members f' d s = parse_members f d s)"
  "(\<forall>f'. 2 * length s + 3 \<le> f \<longrightarrow> f \<le> f' \<longrightarrow> parse_elements f' d s = parse_elements f d s)"
proof (induction f d s and f d s and f d s rule: parse_value_parse_members_parse_elements.induct)
  case (1 depth s)
  show ?case by simp
next
  case (2 fuel depth s)
  show ?case
  proof (intro allI impI)
    fix f' assume b: "2 * length s + 2 \<le> Suc fuel" and le: "Suc fuel \<le> f'"
    then obtain g where f': "f' = Suc g" and g: "fuel \<le> g" by (cases f') auto
    show "parse_value f' depth s = parse_value (Suc fuel) depth s"
    proof (cases "skip_ws s")
      case Nil
      then show ?thesis by (simp add: f')
    next
      case (Cons c t)
      have lt: "length t < length s" using Cons by (rule skip_ws_Cons)
      have pm: "parse_members g (Suc depth) t = parse_members fuel (Suc depth) t"
        if "c = CHR ''{''" "\<not> maxNestingDepth \<le> depth" "\<not> prefix ''}'' (skip_ws t)"
      proof -
        have "2 * length t + 1 \<le> fuel" using b lt by simp
        then show ?thesis using "2.IH"(1)[OF Cons that] g by blast
      qed
      have pe: "parse_elements g (Suc depth) t = parse_elements fuel (Suc depth) t"
        if "c \<noteq> CHR ''{''" "c = CHR ''[''" "\<not> maxNestingDepth \<le> depth"
           "\<not> prefix '']'' (skip_ws t)"
      proof -
        have "2 * length t + 3 \<le> fuel" using b lt by simp
        then show ?thesis using "2.IH"(2)[OF Cons that] g by blast
      qed
      show ?thesis
      proof (cases "c = CHR ''{''")
        case True
        then show ?thesis using pm by (simp add: f' Cons)
      next
        case False
        then show ?thesis using pe by (simp add: f' Cons)
      qed
    qed
  qed
next
  case (3 depth s)
  show ?case by simp
next
  case (4 fuel depth s)
  show ?case
  proof (intro allI impI)
    fix f' assume b: "2 * length s + 1 \<le> Suc fuel" and le: "Suc fuel \<le> f'"
    then obtain g where f': "f' = Suc g" and g: "fuel \<le> g" by (cases f') auto
    show "parse_members f' depth s = parse_members (Suc fuel) depth s"
    proof (cases "skip_ws s")
      case Nil
      then show ?thesis by (simp add: f')
    next
      case (Cons c t)
      have lt: "length t < length s" using Cons by (rule skip_ws_Cons)
      show ?thesis
      proof (cases "c = dq")
        case False
        then show ?thesis by (simp add: f' Cons)
      next
        case c: True
        show ?thesis
        proof (cases "read_string t")
          case None
          then show ?thesis by (simp add: f' Cons c)
        next
          case (Some kr)
          obtain k r1 where kr: "kr = (k, r1)" by (cases kr)
          have rs: "read_string t = Some (k, r1)" using Some kr by simp
          have l1: "length r1 < length t" using rs by (rule read_string_length)
          show ?thesis
          proof (cases "prefix '':'' (skip_ws r1)")
            case False
            then show ?thesis by (simp add: f' Cons c rs)
          next
            case col: True
            define X where "X = drop 1 (skip_ws r1)"
            have lX: "length X < length r1" unfolding X_def using col by (rule drop1_skip_ws)
            have bX: "2 * length X + 2 \<le> fuel" using b lt l1 lX by simp
            have pv: "parse_value g depth X = parse_value fuel depth X"
              using "4.IH"(1)[OF Cons c rs refl col] bX g unfolding X_def by blast
            show ?thesis
            proof (cases "parse_value fuel depth X")
              case None
              then show ?thesis using pv by (simp add: f' Cons c rs col X_def)
            next
              case (Some vr)
              obtain v r3 where vr: "vr = (v, r3)" by (cases vr)
              have p3: "parse_value fuel depth X = Some (v, r3)" using Some vr by simp
              have l3: "length r3 < length X" using parse_length(1)[of fuel depth X] p3 by blast
              show ?thesis
              proof (cases "prefix '','' (skip_ws r3)")
                case False
                then show ?thesis using pv p3 by (simp add: f' Cons c rs col X_def)
              next
                case com: True
                have lY: "length (drop 1 (skip_ws r3)) < length r3"
                  using com by (rule drop1_skip_ws)
                have "2 * length (drop 1 (skip_ws r3)) + 1 \<le> fuel"
                  using bX l3 lY by simp
                then have "parse_members g depth (drop 1 (skip_ws r3))
                      = parse_members fuel depth (drop 1 (skip_ws r3))"
                  using "4.IH"(2)[OF Cons c rs refl col p3[unfolded X_def] refl com] g
                  by blast
                then show ?thesis using pv p3 com by (simp add: f' Cons c rs col X_def)
              qed
            qed
          qed
        qed
      qed
    qed
  qed
next
  case (5 depth s)
  show ?case by simp
next
  case (6 fuel depth s)
  show ?case
  proof (intro allI impI)
    fix f' assume b: "2 * length s + 3 \<le> Suc fuel" and le: "Suc fuel \<le> f'"
    then obtain g where f': "f' = Suc g" and g: "fuel \<le> g" by (cases f') auto
    have "2 * length s + 2 \<le> fuel" using b by simp
    then have pv: "parse_value g depth s = parse_value fuel depth s"
      using "6.IH"(1) g by blast
    show "parse_elements f' depth s = parse_elements (Suc fuel) depth s"
    proof (cases "parse_value fuel depth s")
      case None
      then show ?thesis using pv by (simp add: f')
    next
      case (Some vr)
      obtain v r3 where vr: "vr = (v, r3)" by (cases vr)
      have p3: "parse_value fuel depth s = Some (v, r3)" using Some vr by simp
      have l3: "length r3 < length s" using parse_length(1)[of fuel depth s] p3 by blast
      show ?thesis
      proof (cases "prefix '','' (skip_ws r3)")
        case False
        then show ?thesis using pv p3 by (simp add: f')
      next
        case com: True
        have lY: "length (drop 1 (skip_ws r3)) < length r3"
          using com by (rule drop1_skip_ws)
        have "2 * length (drop 1 (skip_ws r3)) + 3 \<le> fuel"
          using b l3 lY by simp
        then have "parse_elements g depth (drop 1 (skip_ws r3))
              = parse_elements fuel depth (drop 1 (skip_ws r3))"
          using "6.IH"(2)[OF p3 refl com] g by blast
        then show ?thesis using pv p3 com by (simp add: f')
      qed
    qed
  qed
qed

lemma Unmarshal_fuel_enough:
  "2 * length data + 2 \<le> f \<Longrightarrow> parse_value f 0 data = parse_value (2 * length data + 2) 0 data"
  using parse_fuel(1)[of data "2 * length data + 2" 0] by blast

section \<open>The round trips of an Output\<close>

text \<open>
  C2, as amended: for every Output, flattening it with \<open>States\<close> and parsing the states
  back with \<open>ParseStatesToOutput\<close> gives the Output again. Encoding it with \<open>JSON\<close>
  (which never fails) and decoding with \<open>ParseOutputJSON\<close> gives the Output with every
  string field coerced to valid UTF-8, each invalid byte replaced by U+FFFD; this is the
  Output itself when all its string fields are valid UTF-8. The integer fields (uptime
  seconds, boot-time seconds, zombie count) are read back from their decimal text without
  loss.
\<close>

theorem Output_round_trips:
  "snd (States thr o') = None
   \<and> ParseStatesToOutput (fst (States thr o')) = Inr o'
   \<and> snd (JSON o') = None
   \<and> ParseOutputJSON equalFold (fst (JSON o')) = Inr (coerce_Output o')
   \<and> (valid_Output o' \<longrightarrow> ParseOutputJSON equalFold (fst (JSON o')) = Inr o')
   \<and> ParseUint (Sprintf_d_uint64 (Seconds (Uptimes o'))) = (Seconds (Uptimes o'), None)
   \<and> ParseUint (Sprintf_d_uint64 (BootTimeUnixSeconds (Uptimes o')))
       = (BootTimeUnixSeconds (Uptimes o'), None)
   \<and> Atoi (Sprintf_d_int (ProcessCountZombieProcesses o')) = (ProcessCountZombieProcesses o', None)
   \<and> ParseInt (Sprintf_d_int (ProcessCountZombieProcesses o'))
       = (ProcessCountZombieProcesses o', None)"
proof -
  have flat: "ParseStatesToOutput (fst (States thr o')) = Inr o'"
    by (rule States_ParseStatesToOutput_roundtrip)
  have enc: "snd (JSON o') = None" "snd (States thr o') = None"
    by (simp_all add: JSON_def States_def Let_def)
  have dec: "ParseOutputJSON equalFold (fst (JSON o')) = Inr (coerce_Output o')"
    by (rule JSON_then_ParseOutputJSON)
  have same: "valid_Output o' \<longrightarrow> ParseOutputJSON equalFold (fst (JSON o')) = Inr o'"
    using dec by (simp add: coerce_Output_valid)
  show ?thesis
    using flat enc dec same by (simp add: ParseUint_Sprintf Atoi_Sprintf ParseInt_Sprintf)
qed

theorem Output_round_trips_witness:
  "valid_Output
     \<lparr>Host = \<lparr>ID = ''4c4c4544-0044''\<rparr>,
      Kernel = \<lparr>Arch = ''x86_64'', Kernel_Version = ''5.15.0''\<rparr>,
      Platform = \<lparr>Platform_Name = ''ubuntu'', Family = ''debian'', Platform_Version = ''22.04''\<rparr>,
      Uptimes = \<lparr>Seconds = 3600, SecondsHumanized = ''1 hour ago'',
                 BootTimeUnixSeconds = 1700000000, BootTimeHumanized = ''1 hour ago''\<rparr>,
      ProcessCountZombieProcesses = 3\<rparr>
   \<and> ParseOutputJSON (=)
        (fst (JSON
          \<lparr>Host = \<lparr>ID = ''4c4c4544-0044''\<rparr>,
           Kernel = \<lparr>Arch = ''x86_64'', Kernel_Version = ''5.15.0''\<rparr>,
           Platform = \<lparr>Platform_Name = ''ubuntu'', Family = ''debian'', Platform_Version = ''22.04''\<rparr>,
           Uptimes = \<lparr>Seconds = 3600, SecondsHumanized = ''1 hour ago'',
                      BootTimeUnixSeconds = 1700000000, BootTimeHumanized = ''1 hour ago''\<rparr>,
           ProcessCountZombieProcesses = 3\<rparr>))
      = Inr \<lparr>Host = \<lparr>ID = ''4c4c4544-0044''\<rparr>,
             Kernel = \<lparr>Arch = ''x86_64'', Kernel_Version = ''5.15.0''\<rparr>,
             Platform = \<lparr>Platform_Name = ''ubuntu'', Family = ''debian'', Platform_Version = ''22.04''\<rparr>,
             Uptimes = \<lparr>Seconds = 3600, SecondsHumanized = ''1 hour ago'',
                        BootTimeUnixSeconds = 1700000000, BootTimeHumanized = ''1 hour ago''\<rparr>,
             ProcessCountZombieProcesses = 3\<rparr>"
proof -
  let ?o = "\<lparr>Host = \<lparr>ID = ''4c4c4544-0044''\<rparr>,
             Kernel = \<lparr>Arch = ''x86_64'', Kernel_Version = ''5.15.0''\<rparr>,
             Platform = \<lparr>Platform_Name = ''ubuntu'', Family = ''debian'', Platform_Version = ''22.04''\<rparr>,
             Uptimes = \<lparr>Seconds = 3600, SecondsHumanized = ''1 hour ago'',
                        BootTimeUnixSeconds = 1700000000, BootTimeHumanized = ''1 hour ago''\<rparr>,
             ProcessCountZombieProcesses = 3\<rparr>"
  have v: "valid_Output ?o"
    by (simp add: valid_Output_def ValidString_ascii del: ValidString.simps)
  show ?thesis using v Output_round_trips [of 1000 ?o "(=)"] by blast
qed

text \<open>
  An Output whose host id is the single byte \<open>0xFF\<close>, which is not valid UTF-8, does not
  come back from JSON: the id comes back as the three bytes of U+FFFD.
\<close>

theorem JSON_round_trip_counterexample:
  "ParseOutputJSON (=) (fst (JSON (zeroOutput\<lparr>Host := \<lparr>ID = [CHR 0xFF]\<rparr>\<rparr>)))
     \<noteq> Inr (zeroOutput\<lparr>Host := \<lparr>ID = [CHR 0xFF]\<rparr>\<rparr>)"
  by (simp add: JSON_then_ParseOutputJSON coerce_Output_def zeroOutput_def bad_byte)

section \<open>The health verdict of the process-count state\<close>

text \<open>
  C5: for every Output and every value of \<open>DefaultZombieProcessCountThreshold\<close>, \<open>States\<close>
  produces exactly one state named \<open>process_counts_by_status\<close>; it is unhealthy exactly
  when the zombie count is greater than or equal to the threshold, and healthy exactly when
  the count is strictly below it (both read as signed integers).
\<close>

theorem States_process_counts_healthy:
  "\<exists>s. filter (\<lambda>s. Name s = StateNameProcessCountsByStatus) (fst (States thr o')) = [s]
       \<and> (\<not> Healthy s \<longleftrightarrow> sint thr \<le> sint (ProcessCountZombieProcesses o'))
       \<and> (Healthy s \<longleftrightarrow> sint (ProcessCountZombieProcesses o') < sint thr)"
  by (auto simp: States_def StateNames Let_def word_sle_eq)

theorem States_process_counts_healthy_witness:
  "\<exists>s. filter (\<lambda>s. Name s = StateNameProcessCountsByStatus)
           (fst (States 1000 (zeroOutput\<lparr>ProcessCountZombieProcesses := 1000\<rparr>))) = [s]
       \<and> \<not> Healthy s"
  using States_process_counts_healthy
          [of 1000 "zeroOutput\<lparr>ProcessCountZombieProcesses := 1000\<rparr>"]
  by simp

text \<open>
  C8, as amended: \<open>States\<close> emits five states (host, kernel, platform, uptimes,
  process_counts_by_status), and each of them that is not healthy has a non-empty reason,
  for every Output and every threshold.
\<close>

theorem States_unhealthy_has_reason:
  "length (fst (States thr o')) = 5
   \<and> (\<forall>s \<in> set (fst (States thr o')). \<not> Healthy s \<longrightarrow> Reason s \<noteq> [])"
  by (auto simp: States_def Let_def)

theorem States_unhealthy_has_reason_witness:
  "last (fst (States 1000 (zeroOutput\<lparr>ProcessCountZombieProcesses := 1000\<rparr>)))
     \<in> set (fst (States 1000 (zeroOutput\<lparr>ProcessCountZombieProcesses := 1000\<rparr>)))
   \<and> \<not> Healthy (last (fst (States 1000 (zeroOutput\<lparr>ProcessCountZombieProcesses := 1000\<rparr>))))
   \<and> Reason (last (fst (States 1000 (zeroOutput\<lparr>ProcessCountZombieProcesses := 1000\<rparr>)))) \<noteq> []"
  using States_unhealthy_has_reason [of 1000 "zeroOutput\<lparr>ProcessCountZombieProcesses := 1000\<rparr>"]
  by (simp add: States_def Let_def)

text \<open>The states that \<open>States\<close> emits are not six.\<close>

theorem States_six_counterexample:
  "\<not> (length (fst (States 1000 zeroOutput)) = 6)"
  by (simp add: States_def Let_def)

section \<open>Parsing states with missing keys and unknown names\<close>

text \<open>
  C6: \<open>ParseStateUptimes\<close> on a map without its keys. Both integer keys read as the empty
  string, which \<open>strconv.ParseUint\<close> rejects: the result is the syntax error, not an
  \<open>Uptimes\<close> with zero values.
\<close>

theorem ParseStateUptimes_missing_keys:
  "ParseStateUptimes Map.empty = Inl (NumError ''ParseUint'' [] ErrSyntax)"
  by (simp add: ParseStateUptimes_def index_def ParseUint_def)

text \<open>The other four parsers do take an absent key as the zero value.\<close>

lemma ParseState_others_missing_keys:
  "ParseStateHost Map.empty = Inr \<lparr>ID = []\<rparr>
   \<and> ParseStateKernel Map.empty = Inr \<lparr>Arch = [], Kernel_Version = []\<rparr>
   \<and> ParseStatePlatform Map.empty = Inr \<lparr>Platform_Name = [], Family = [], Platform_Version = []\<rparr>
   \<and> ParseStateProcessCountZombieProcesses Map.empty = Inr 0"
  by (simp add: ParseStateHost_def ParseStateKernel_def ParseStatePlatform_def
      ParseStateProcessCountZombieProcesses_def index_def)

lemma ParseStatesToOutput_uptimes_missing_keys:
  "ParseStatesToOutput [\<lparr>Name = StateNameUptimes, Healthy = True, Reason = [], ExtraInfo = Map.empty\<rparr>]
   = Inl (NumError ''ParseUint'' [] ErrSyntax)"
  by (simp add: ParseStatesToOutput_def StateNames ParseStateUptimes_def index_def ParseUint_def)

lemma ParseStateUptimes_no_seconds_key:
  "m StateKeyUptimesSeconds = None \<Longrightarrow>
   ParseStateUptimes m = Inl (NumError ''ParseUint'' [] ErrSyntax)"
  by (simp add: ParseStateUptimes_def index_def ParseUint_def)

lemma ParseStateUptimes_no_boot_time_key:
  "m StateKeyUptimesBootTimeUnixSeconds = None \<Longrightarrow>
   \<exists>err. ParseStateUptimes m = Inl err"
  by (auto simp: ParseStateUptimes_def index_def ParseUint_def split: prod.splits option.splits)

lemma ParseStatesToOutput_loop_unknown:
  "\<exists>s \<in> set states. Name s \<notin> known_state_names \<Longrightarrow>
   \<exists>err. ParseStatesToOutput_loop o' states = Inl err"
proof (induction states arbitrary: o')
  case Nil
  then show ?case by simp
next
  case (Cons state states)
  show ?case
  proof (cases "Name state \<in> known_state_names")
    case True
    with Cons.prems have "\<exists>s \<in> set states. Name s \<notin> known_state_names" by auto
    then have IH: "\<And>o''. \<exists>err. ParseStatesToOutput_loop o'' states = Inl err"
      by (rule Cons.IH)
    show ?thesis
      using IH by (auto simp: split: sum.splits)
  next
    case False
    then show ?thesis by (simp add: known_state_names_def)
  qed
qed

text \<open>
  C10: whenever some state of the input has a name that is not one of the five known names,
  \<open>ParseStatesToOutput\<close> returns an error and no Output; the state is never skipped.
\<close>

theorem ParseStatesToOutput_unknown_name:
  "\<exists>s \<in> set states. Name s \<notin> known_state_names \<Longrightarrow>
   \<exists>err. ParseStatesToOutput states = Inl err"
  unfolding ParseStatesToOutput_def by (rule ParseStatesToOutput_loop_unknown)

theorem ParseStatesToOutput_unknown_name_witness:
  "(\<exists>s \<in> set [\<lparr>Name = StateNameHost, Healthy = True, Reason = [], ExtraInfo = Map.empty\<rparr>,
                 \<lparr>Name = ''gpu'', Healthy = True, Reason = [], ExtraInfo = Map.empty\<rparr>].
      Name s \<notin> known_state_names)
   \<and> (\<exists>err. ParseStatesToOutput
               [\<lparr>Name = StateNameHost, Healthy = True, Reason = [], ExtraInfo = Map.empty\<rparr>,
                \<lparr>Name = ''gpu'', Healthy = True, Reason = [], ExtraInfo = Map.empty\<rparr>] = Inl err)"
proof -
  have h: "\<exists>s \<in> set [\<lparr>Name = StateNameHost, Healthy = True, Reason = [], ExtraInfo = Map.empty\<rparr>,
                       \<lparr>Name = ''gpu'', Healthy = True, Reason = [], ExtraInfo = Map.empty\<rparr>].
            Name s \<notin> known_state_names"
    by (simp add: known_state_names_def StateNames)
  show ?thesis using h ParseStatesToOutput_unknown_name [OF h] by blast
qed

section \<open>The SXid classifier\<close>

text \<open>
  C4: on the line of the Fatal LTSSM fault of link 30, \<open>ExtractNVSwitchSXid\<close> returns the
  fault code 20034.
\<close>

theorem ExtractNVSwitchSXid_fatal_link_line:
  "ExtractNVSwitchSXid
     ''[131453.740743] nvidia-nvswitch0: SXid (PCI:0000:00:00.0): 20034, Fatal, Link 30 LTSSM Fault Up''
   = 20034"
  by (simp add: ExtractNVSwitchSXid_def match_here_def is_digit_def Atoi_def)




section \<open>Suggested actions\<close>

lemma RequiresReboot_loop_iff:
  "RequiresReboot_loop actions \<longleftrightarrow> RepairActionTypeRebootSystem \<in> set actions"
  by (induction actions) auto

text \<open>
  C7: \<open>RequiresReboot\<close> is true iff the repair actions contain the reboot tag; it is false
  for no actions, true for reboot alone, true for reboot with repair-hardware, and false
  for repair-hardware alone. It is a function of the actions: the record holds no field
  for it.
\<close>

theorem RequiresReboot_iff:
  "(RequiresReboot sa \<longleftrightarrow> RepairActionTypeRebootSystem \<in> set (RepairActions sa))
   \<and> \<not> RequiresReboot \<lparr>RepairActions = []\<rparr>
   \<and> RequiresReboot \<lparr>RepairActions = [RepairActionTypeRebootSystem]\<rparr>
   \<and> RequiresReboot \<lparr>RepairActions = [RepairActionTypeRebootSystem, RepairActionTypeRepairHardware]\<rparr>
   \<and> \<not> RequiresReboot \<lparr>RepairActions = [RepairActionTypeRepairHardware]\<rparr>"
  by (simp add: RequiresReboot_def RequiresReboot_loop_iff)

theorem RequiresReboot_iff_witness:
  "RequiresReboot \<lparr>RepairActions = [RepairActionTypeRepairHardware, RepairActionTypeRebootSystem]\<rparr>
   \<and> RepairActionTypeRebootSystem
        \<in> set (RepairActions
                 \<lparr>RepairActions = [RepairActionTypeRepairHardware, RepairActionTypeRebootSystem]\<rparr>)"
  using RequiresReboot_iff
          [of "\<lparr>RepairActions = [RepairActionTypeRepairHardware, RepairActionTypeRebootSystem]\<rparr>"]
  by simp

section \<open>Reboot and the scan of a subprocess's output\<close>

text \<open>
  C9: called with an effective user id that is not 0, \<open>Reboot\<close> returns \<open>ErrNotRoot\<close> and
  has done nothing: no subprocess was constructed or started and no delayed reboot was
  scheduled, whatever the options are. It returns once; nothing is tried again.
\<close>

theorem Reboot_not_root:
  "euid \<noteq> 0 \<Longrightarrow> Reboot euid proc opts = (Some ErrNotRoot, [])"
  by (simp add: Reboot_def applyOpts_def)

theorem Reboot_not_root_witness:
  "(1000 :: int) \<noteq> 0
   \<and> Reboot 1000 \<lparr>new_err = None, start_err = None, scanned = [], scan_err = None\<rparr>
        [WithDelaySeconds 5, WithSystemctl True] = (Some ErrNotRoot, [])"
proof -
  have h: "(1000 :: int) \<noteq> 0" by simp
  show ?thesis using h Reboot_not_root [OF h] by simp
qed

text \<open>
  What each scan does with the scanner's final error: a text with
  \<open>file already closed\<close> in it is suppressed by both; any other error is returned by
  \<open>ListNVIDIAPCIs\<close>, while \<open>rebootFunc\<close> returns the variable \<open>err\<close> of \<open>Reboot\<close>.
\<close>

lemma ListNVIDIAPCIs_scan_error:
  assumes "locate w = (p, None)" and "p \<noteq> []"
    and "new_err (run w) = None" and "start_err (run w) = None"
    and "pci_scan (scanned (run w)) [] = Inr lines"
    and "scan_err (run w) = Some serr"
  shows "ListNVIDIAPCIs w =
           (if Contains (Error serr) ''file already closed'' then pci_final (final w) lines
            else (None, Some serr))"
  using assms by (simp add: ListNVIDIAPCIs_def)

lemma rebootFunc_scan_error:
  assumes "start_err proc = None"
    and "reboot_scan (scanned proc) (tr @ [ProcessStart]) = (None, tr')"
    and "scan_err proc = Some serr"
  shows "rebootFunc proc cmd err tr =
           (if Contains (Error serr) ''file already closed''
            then (None, tr' @ [LogInfow ''successfully rebooted''])
            else (err, tr'))"
  using assms by (simp add: rebootFunc_def)

lemma Reboot_scan_error_dropped:
  assumes "new_err proc = None" and "start_err proc = None"
    and "reboot_scan (scanned proc)
           [ProcessNew ''sudo reboot'', LogInfow ''rebooting immediately'', ProcessStart] = (None, tr')"
    and "scan_err proc = Some serr"
    and "\<not> Contains (Error serr) ''file already closed''"
  shows "Reboot 0 proc [] = (None, tr')"
  using assms by (simp add: Reboot_def applyOpts_def rebootFunc_def)

lemma ListNVIDIAPCIs_scanner_error_returned:
  "ListNVIDIAPCIs
     \<lparr>locate = (''/usr/bin/lspci'', None),
      run = \<lparr>new_err = None, start_err = None, scanned = [],
             scan_err = Some (ExternalError ''bufio.Scanner: token too long'')\<rparr>,
      final = WaitReceived None\<rparr>
   = (None, Some (ExternalError ''bufio.Scanner: token too long''))"
  by (simp add: ListNVIDIAPCIs_def)

text \<open>
  C1: \<open>Reboot\<close> as root, without delay, when the scanner ends with an error that is not the
  closed pipe (here a line longer than the scanner's buffer). The error is not returned:
  \<open>Reboot\<close> returns \<open>nil\<close>.
\<close>

theorem Reboot_scanner_error_not_returned:
  "Reboot 0 \<lparr>new_err = None, start_err = None, scanned = [],
             scan_err = Some (ExternalError ''bufio.Scanner: token too long'')\<rparr> []
   = (None, [ProcessNew ''sudo reboot'', LogInfow ''rebooting immediately'', ProcessStart])"
  by (simp add: Reboot_def applyOpts_def rebootFunc_def)

end
